theory Spec2Isabelle
  imports Complex_Main "HOL-Library.Word"
begin

section \<open>Data model of the Picard matrix solver\<close>

text \<open>
  The embedding follows \<^verbatim>\<open>hermes_common/src/solvers/picard_matrix_solver.cpp\<close>.
  \<^verbatim>\<open>Scalar\<close> (\<^verbatim>\<open>double\<close> or \<^verbatim>\<open>std::complex<double>\<close> in the source) is modelled by
  the reals.  The entries of the dense system, the mixed vector and the norms are the
  formulas of the source over the reals.  Where the mixing coefficients are summed and the
  sum is subtracted from one (lines 232--238), every operation is rounded as \<^verbatim>\<open>double\<close>
  arithmetic rounds it, because whether the coefficients add up to one depends on this
  rounding alone.  Arrays of scalars allocated with \<^verbatim>\<open>new\<close> or
  \<^verbatim>\<open>calloc\<close> live in an explicit store that maps addresses to their contents, so that
  the pointer rotation of the history and the allocation and release of blocks are
  visible.  A read through an address that is not allocated is undefined behaviour in the
  source; here its value is unspecified, so nothing can be proved about it.
\<close>

type_synonym scalar = real
type_synonym addr = nat

text \<open>
  Modelled from the spec: the enumeration \<^verbatim>\<open>NonlinearConvergenceState\<close> is declared in a
  header outside the translated file.  These are the states the solver acts upon;
  \<open>OtherState\<close> stands for any value that reaches the \<^verbatim>\<open>default:\<close> branch of
  \<^verbatim>\<open>handle_convergence_state_return_finished\<close>.
\<close>

datatype NonlinearConvergenceState =
  Converged | NotConverged | AboveMaxIterations | Error | OtherState

text \<open>
  The exceptions that leave the solver: the one \<^verbatim>\<open>isOkay\<close> throws for a bad number of last
  vectors, the one the validity check throws when \<^verbatim>\<open>isOkay\<close> answers false, the three that
  \<^verbatim>\<open>handle_convergence_state_return_finished\<close> throws, and the one with which \<^verbatim>\<open>ludcmp\<close>
  gives up.  A function that can throw returns an outcome together with the state it
  leaves behind.
\<close>

datatype exn =
    BadNumLastVectors
  | NotOkay
  | NonlinearException NonlinearConvergenceState
  | UnknownException
  | UnknownConvergenceState
  | SingularMatrix

datatype 'a outcome = Returns 'a | Throws exn

text \<open>
  The messages passed to \<^verbatim>\<open>info\<close>: "Picard: done.", "Picard: aborted." (and "Aborted"),
  the two lines of \<^verbatim>\<open>step_info\<close>, and the solution duration.
\<close>

datatype message = Done | Aborted | StepInfo | Duration

datatype reuse = HERMES_CREATE_STRUCTURE_FROM_SCRATCH | HERMES_REUSE_MATRIX_STRUCTURE_COMPLETELY

text \<open>Calls that leave the translated file, recorded in the order they are made.\<close>

datatype call =
    Tick | OnInitialization | OnFinish | Info message
  | Assemble | AssembleResidual | MatrixSolve | Ludcmp | Lubksb

text \<open>
  The solver object together with what \<^verbatim>\<open>solve\<close> keeps beside it.  The first block of
  fields are the members of the class and its base that the translated file reads or
  writes; \<^verbatim>\<open>num_last_vectors_used\<close> is an \<^verbatim>\<open>int\<close>, read as signed.  \<open>previous_vectors\<close> is
  the array of row pointers and \<open>anderson_coeffs\<close> the pointer to the coefficient array;
  the rows and the coefficients themselves are in \<open>heap\<close>, where \<open>next_addr\<close> is the next
  address the allocator hands out.  \<open>it\<close>, \<open>vec_in_memory\<close> (both \<^verbatim>\<open>unsigned int\<close>) and the
  three norm sequences are the locals of \<^verbatim>\<open>solve\<close> that it links as parameters.
  \<open>matrix_solver_sln_vector\<close> is the vector the linear solver returned last, and \<open>calls\<close>
  the record of the calls made so far.  \<open>sln_vector\<close> is held by value: it is owned by the
  solver and no other pointer refers to it.
\<close>

record picard =
  num_last_vectors_used :: "32 word"
  anderson_beta :: real
  anderson_is_on :: bool
  dimension :: nat
  sln_vector :: "scalar list"
  delete_coeff_vec :: bool
  jacobian_reusable :: bool
  constant_jacobian :: bool
  reuse_scheme :: reuse
  num_iters :: "32 word"
  previous_vectors :: "addr list"
  anderson_coeffs :: addr
  heap :: "addr \<rightharpoonup> scalar list"
  next_addr :: addr
  it :: "32 word"
  vec_in_memory :: "32 word"
  solution_norms :: "real list"
  solution_change_norms :: "real list"
  residual_norms :: "real list"
  matrix_solver_sln_vector :: "nat \<Rightarrow> scalar"
  calls :: "call list"

text \<open>
  The collaborators of the solver that are not part of the translated file: the base
  class, the discretisation, the sparse linear solver, the caller's hooks and the dense
  helpers \<^verbatim>\<open>ludcmp\<close> and \<^verbatim>\<open>lubksb\<close>.  They are parameters of the model.  A pointer into
  memory owned by a collaborator is a function from the index to the value.
  \<open>ludcmp\<close> returns the decomposed matrix and the permutation, or \<open>None\<close> when it throws;
  \<open>lubksb\<close> returns the contents of the right-hand side after the back substitution.
  \<open>uninitialised\<close> is the content of a cell that \<^verbatim>\<open>new\<close> has just allocated.
\<close>

record env =
  uninitialised :: scalar
  NonlinearMatrixSolver_isOkay :: bool
  get_dimension :: nat
  matrix_solver_solve :: "picard \<Rightarrow> addr \<Rightarrow> nat \<Rightarrow> scalar"
  calculate_residual_norm :: "picard \<Rightarrow> real"
  get_convergence_state :: "picard \<Rightarrow> NonlinearConvergenceState"
  on_initial_step_end :: "picard \<Rightarrow> bool"
  on_step_begin :: "picard \<Rightarrow> bool"
  on_step_end :: "picard \<Rightarrow> bool"
  ludcmp :: "scalar list list \<Rightarrow> nat \<Rightarrow> (scalar list list \<times> int list) option"
  lubksb :: "scalar list list \<Rightarrow> nat \<Rightarrow> int list \<Rightarrow> scalar list \<Rightarrow> nat \<Rightarrow> scalar"

section \<open>Rounding of \<^verbatim>\<open>double\<close> arithmetic\<close>

text \<open>
  An operation on values of type \<^verbatim>\<open>double\<close> (IEEE 754 binary64, default rounding mode)
  returns the \<^verbatim>\<open>double\<close> nearest to its exact result, a tie going to the neighbour whose
  significand is even.  A \<^verbatim>\<open>double\<close> other than zero is an integer \<open>m\<close> with
  \<open>2 ^ 52 \<le> \<bar>m\<bar> < 2 ^ 53\<close> times a power of two.  \<open>exponent x\<close> is the position of the
  leading bit of \<open>x\<close>, found by halving or doubling \<open>x\<close> until its magnitude lies between
  one and two; so \<open>x * 2 powi (52 - exponent x)\<close> has a magnitude between \<open>2 ^ 52\<close> and
  \<open>2 ^ 53\<close>, and rounding that to an integer rounds \<open>x\<close> to 53 significant bits.  The range of the exponent is not bounded here: overflow to infinity is not
  modelled, nor is the coarser spacing of the subnormal numbers (a sum or difference of two
  values of type \<^verbatim>\<open>double\<close> that falls among them is exact in any case).
\<close>

definition round_to_even :: "real \<Rightarrow> int" where
  "round_to_even x =
     (if x - of_int \<lfloor>x\<rfloor> < 1 / 2 then \<lfloor>x\<rfloor>
      else if 1 / 2 < x - of_int \<lfloor>x\<rfloor> then \<lfloor>x\<rfloor> + 1
      else if even \<lfloor>x\<rfloor> then \<lfloor>x\<rfloor> else \<lfloor>x\<rfloor> + 1)"

function exponent :: "real \<Rightarrow> int" where
  "exponent x =
     (if x = 0 then 0
      else if 2 \<le> \<bar>x\<bar> then exponent (x / 2) + 1
      else if \<bar>x\<bar> < 1 then exponent (x * 2) - 1
      else 0)"
  by pat_completeness auto

termination
proof (relation "measure (\<lambda>x. nat \<bar>\<lfloor>log 2 \<bar>x\<bar>\<rfloor>\<bar>)")
  show "wf (measure (\<lambda>x. nat \<bar>\<lfloor>log 2 \<bar>x\<bar>\<rfloor>\<bar>))"
    by simp
next
  fix x :: real
  assume x: "x \<noteq> 0" "2 \<le> \<bar>x\<bar>"
  have "log 2 \<bar>x / 2\<bar> = log 2 \<bar>x\<bar> - 1"
    using x by (simp add: log_divide)
  moreover have "1 \<le> log 2 \<bar>x\<bar>"
    using x by (simp add: le_log_iff)
  then have "1 \<le> \<lfloor>log 2 \<bar>x\<bar>\<rfloor>"
    by linarith
  ultimately show "(x / 2, x) \<in> measure (\<lambda>x. nat \<bar>\<lfloor>log 2 \<bar>x\<bar>\<rfloor>\<bar>)"
    by simp
next
  fix x :: real
  assume x: "x \<noteq> 0" "\<bar>x\<bar> < 1"
  have "log 2 \<bar>x * 2\<bar> = log 2 \<bar>x\<bar> + 1"
    using x by (simp add: abs_mult log_mult)
  then have "\<lfloor>log 2 \<bar>x * 2\<bar>\<rfloor> = \<lfloor>log 2 \<bar>x\<bar>\<rfloor> + 1"
    by simp
  moreover have "log 2 \<bar>x\<bar> < 0"
    using x by simp
  then have "\<lfloor>log 2 \<bar>x\<bar>\<rfloor> < 0"
    by linarith
  ultimately show "(x * 2, x) \<in> measure (\<lambda>x. nat \<bar>\<lfloor>log 2 \<bar>x\<bar>\<rfloor>\<bar>)"
    by (simp only: in_measure)
qed

declare exponent.simps [simp del]

definition round_double :: "real \<Rightarrow> real" where
  "round_double x =
     (if x = 0 then 0
      else of_int (round_to_even (x * 2 powi (52 - exponent x))) * 2 powi (exponent x - 52))"

section \<open>Store operations\<close>

text \<open>The contents of the block at an address.\<close>

definition block :: "picard \<Rightarrow> addr \<Rightarrow> scalar list" where
  "block s a = the (heap s a)"

text \<open>\<^verbatim>\<open>new Scalar[n]\<close>: a fresh block of \<open>n\<close> uninitialised cells.\<close>

definition new_array :: "env \<Rightarrow> nat \<Rightarrow> picard \<Rightarrow> addr \<times> picard" where
  "new_array env n s =
     (next_addr s,
      s\<lparr>heap := (heap s)(next_addr s \<mapsto> replicate n (uninitialised env)),
        next_addr := Suc (next_addr s)\<rparr>)"

text \<open>\<^verbatim>\<open>calloc(n, sizeof(Scalar))\<close>: a fresh block of \<open>n\<close> zeros.\<close>

definition calloc :: "nat \<Rightarrow> picard \<Rightarrow> addr \<times> picard" where
  "calloc n s =
     (next_addr s,
      s\<lparr>heap := (heap s)(next_addr s \<mapsto> replicate n 0), next_addr := Suc (next_addr s)\<rparr>)"

text \<open>\<^verbatim>\<open>delete []\<close> and \<^verbatim>\<open>free\<close>.\<close>

definition delete_array :: "addr \<Rightarrow> picard \<Rightarrow> picard" where
  "delete_array a s = s\<lparr>heap := (heap s)(a := None)\<rparr>"

text \<open>\<^verbatim>\<open>memcpy(dst, src, n * sizeof(Scalar))\<close>: the first \<open>n\<close> cells of \<open>dst\<close> are replaced.\<close>

definition memcpy :: "scalar list \<Rightarrow> (nat \<Rightarrow> scalar) \<Rightarrow> nat \<Rightarrow> scalar list" where
  "memcpy dst src n = map src [0..<n] @ drop n dst"

text \<open>Writing new contents to the block at an address.\<close>

definition store_block :: "addr \<Rightarrow> scalar list \<Rightarrow> picard \<Rightarrow> picard" where
  "store_block a v s = s\<lparr>heap := (heap s)(a \<mapsto> v)\<rparr>"

definition record_call :: "call \<Rightarrow> picard \<Rightarrow> picard" where
  "record_call c s = s\<lparr>calls := calls s @ [c]\<rparr>"

section \<open>Anderson acceleration\<close>

text \<open>The configured history capacity, read as the signed \<^verbatim>\<open>int\<close> it is.\<close>

definition capacity :: "picard \<Rightarrow> nat" where
  "capacity s = nat (sint (num_last_vectors_used s))"

text \<open>\<^verbatim>\<open>previous_vectors[j][i]\<close>\<close>

definition pv :: "picard \<Rightarrow> nat \<Rightarrow> nat \<Rightarrow> scalar" where
  "pv s j i = block s (previous_vectors s ! j) ! i"

text \<open>The rows of the history in order, oldest first.\<close>

definition history :: "picard \<Rightarrow> scalar list list" where
  "history s = map (block s) (previous_vectors s)"

text \<open>The loop of \<^verbatim>\<open>init_anderson\<close> that allocates one row per history slot.\<close>

primrec new_vectors :: "env \<Rightarrow> nat \<Rightarrow> nat \<Rightarrow> picard \<Rightarrow> addr list \<times> picard" where
  "new_vectors env n 0 s = ([], s)"
| "new_vectors env n (Suc m) s =
     (let (a, s1) = new_array env n s;
          (as, s2) = new_vectors env n m s1
      in (a # as, s2))"

definition init_anderson :: "env \<Rightarrow> picard \<Rightarrow> picard" where
  "init_anderson env s =
     (if anderson_is_on s then
        let (rows, s1) = new_vectors env (dimension s) (capacity s) s;
            s2 = s1\<lparr>previous_vectors := rows\<rparr>;
            (c, s3) = new_array env (nat (sint (num_last_vectors_used s) - 1)) s2;
            s4 = s3\<lparr>anderson_coeffs := c\<rparr>
        in store_block (previous_vectors s4 ! 0)
             (memcpy (block s4 (previous_vectors s4 ! 0)) ((!) (sln_vector s4)) (dimension s4)) s4
      else s)"

definition deinit_anderson :: "picard \<Rightarrow> picard" where
  "deinit_anderson s =
     (if anderson_is_on s then
        let s1 = fold (\<lambda>i t. delete_array (previous_vectors t ! i) t) [0..<capacity s] s
        in delete_array (anderson_coeffs s1) s1
      else s)"

text \<open>
  \<^verbatim>\<open>calculate_anderson_coeffs\<close>.  The matrix and the right-hand side are local arrays
  whose cells are each written once; the sums over the components are accumulated from
  zero in index order, as the loops do.  The solve result overwrites the right-hand side
  and is copied into the coefficient array cell by cell while its sum is accumulated; the
  additions \<^verbatim>\<open>sum += rhs[i]\<close> and the subtraction \<^verbatim>\<open>1.0 - sum\<close> are rounded.  An
  exception of \<^verbatim>\<open>ludcmp\<close> leaves the function before anything is written.
\<close>

definition residual :: "picard \<Rightarrow> nat \<Rightarrow> nat \<Rightarrow> scalar" where
  "residual s i k = pv s (i + 1) k - pv s i k"

definition anderson_rhs :: "picard \<Rightarrow> nat \<Rightarrow> scalar list" where
  "anderson_rhs s n =
     map (\<lambda>i. foldl (\<lambda>acc k. acc + residual s n k * (residual s n k - residual s i k))
                 0 [0..<dimension s])
       [0..<n]"

definition anderson_mat :: "picard \<Rightarrow> nat \<Rightarrow> scalar list list" where
  "anderson_mat s n =
     map (\<lambda>i. map (\<lambda>j. foldl (\<lambda>val k. val + (residual s n k - residual s i k)
                                          * (residual s n k - residual s j k))
                          0 [0..<dimension s])
                [0..<n])
       [0..<n]"

definition calculate_anderson_coeffs :: "env \<Rightarrow> picard \<Rightarrow> unit outcome \<times> picard" where
  "calculate_anderson_coeffs env s =
     (if num_last_vectors_used s = 2 then
        (Returns (), store_block (anderson_coeffs s) ((block s (anderson_coeffs s))[0 := 1]) s)
      else
        let n = nat (sint (num_last_vectors_used s) - 2);
            mat = anderson_mat s n;
            rhs = anderson_rhs s n
        in case ludcmp env mat n of
             None \<Rightarrow> (Throws SingularMatrix, record_call Ludcmp s)
           | Some (lu, perm) \<Rightarrow>
               let s1 = record_call Lubksb (record_call Ludcmp s);
                   rhs' = map (lubksb env lu n perm rhs) [0..<n];
                   (cs, sum) = fold (\<lambda>i (cs, sum).
                                       (cs[i := rhs' ! i], round_double (sum + rhs' ! i)))
                                 [0..<n] (block s1 (anderson_coeffs s1), 0)
               in (Returns (),
                   store_block (anderson_coeffs s1) (cs[n := round_double (1 - sum)]) s1))"

text \<open>
  \<^verbatim>\<open>handle_previous_vectors\<close>, in its three parts: storing the new vector (lines 147--162),
  and, when the history is full, computing the coefficients and the mixed vector
  (lines 164--176).  The comparisons of \<^verbatim>\<open>vec_in_memory\<close> (\<^verbatim>\<open>unsigned int\<close>) with
  \<^verbatim>\<open>num_last_vectors_used\<close> (\<^verbatim>\<open>int\<close>) are unsigned, the loop bounds are signed.
\<close>

definition store_new_vector :: "picard \<Rightarrow> picard" where
  "store_new_vector s =
     (if vec_in_memory s < num_last_vectors_used s then
        (store_block (previous_vectors s ! unat (vec_in_memory s))
           (memcpy (block s (previous_vectors s ! unat (vec_in_memory s)))
              ((!) (sln_vector s)) (dimension s)) s)
          \<lparr>vec_in_memory := vec_in_memory s + 1\<rparr>
      else
        let oldest_vec = previous_vectors s ! 0;
            shifted = fold (\<lambda>i p. p[i := p ! (i + 1)])
                        [0..<nat (sint (num_last_vectors_used s) - 1)] (previous_vectors s);
            s1 = s\<lparr>previous_vectors :=
                     shifted[nat (sint (num_last_vectors_used s) - 1) := oldest_vec]\<rparr>
        in store_block oldest_vec
             (memcpy (block s1 oldest_vec) ((!) (sln_vector s1)) (dimension s1)) s1)"

definition mixed_component :: "picard \<Rightarrow> nat \<Rightarrow> scalar" where
  "mixed_component s i =
     foldl (\<lambda>acc j. acc + (block s (anderson_coeffs s) ! (j - 1) * pv s j i
                            - (1 - anderson_beta s) * block s (anderson_coeffs s) ! (j - 1)
                              * (pv s j i - pv s (j - 1) i)))
       0 [1..<capacity s]"

definition mix_vectors :: "picard \<Rightarrow> picard" where
  "mix_vectors s =
     s\<lparr>sln_vector := fold (\<lambda>i v. v[i := mixed_component s i]) [0..<dimension s] (sln_vector s)\<rparr>"

definition handle_previous_vectors :: "env \<Rightarrow> picard \<Rightarrow> unit outcome \<times> picard" where
  "handle_previous_vectors env s =
     (if anderson_is_on s then
        let s1 = store_new_vector s
        in if vec_in_memory s1 \<ge> num_last_vectors_used s1 then
             (case calculate_anderson_coeffs env s1 of
                (Throws e, s2) \<Rightarrow> (Throws e, s2)
              | (Returns _, s2) \<Rightarrow> (Returns (), mix_vectors s2))
           else (Returns (), s1)
      else (Returns (), s))"

section \<open>The iteration controller\<close>

definition isOkay :: "env \<Rightarrow> picard \<Rightarrow> bool outcome" where
  "isOkay env s =
     (if sint (num_last_vectors_used s) \<le> 1 then Throws BadNumLastVectors
      else Returns (NonlinearMatrixSolver_isOkay env))"

text \<open>
  Modelled from the spec: \<^verbatim>\<open>check()\<close> is inherited from a mixin outside the translated
  file.  It is the validity check made at the start of \<^verbatim>\<open>init_solving\<close>: it calls
  \<open>isOkay\<close> and fails when that throws or answers false.
\<close>

definition check :: "env \<Rightarrow> picard \<Rightarrow> unit outcome" where
  "check env s =
     (case isOkay env s of
        Throws e \<Rightarrow> Throws e
      | Returns ok \<Rightarrow> if ok then Returns () else Throws NotOkay)"

text \<open>
  Modelled from the spec: \<^verbatim>\<open>get_l2_norm\<close> is declared outside the translated file; it is
  the Euclidean norm of the first \<open>n\<close> components.
\<close>

definition get_l2_norm :: "(nat \<Rightarrow> scalar) \<Rightarrow> nat \<Rightarrow> real" where
  "get_l2_norm v n = sqrt (\<Sum>i<n. \<bar>v i\<bar> * \<bar>v i\<bar>)"

definition init_solving :: "env \<Rightarrow> addr option \<Rightarrow> picard \<Rightarrow> addr outcome \<times> picard" where
  "init_solving env coeff_vec s =
     (case check env s of
        Throws e \<Rightarrow> (Throws e, s)
      | Returns _ \<Rightarrow>
          let s1 = record_call Tick s;
              s2 = s1\<lparr>dimension := get_dimension env\<rparr>;
              fresh = replicate (dimension s2) (uninitialised env);
              s3 = s2\<lparr>sln_vector :=
                       (case coeff_vec of
                          None \<Rightarrow> replicate (dimension s2) 0
                        | Some c \<Rightarrow> memcpy fresh ((!) (block s2 c)) (dimension s2))\<rparr>;
              s4 = s3\<lparr>delete_coeff_vec := False\<rparr>
          in (case coeff_vec of
                None \<Rightarrow>
                  let (c, s5) = calloc (dimension s4) s4
                  in (Returns c, record_call OnInitialization (s5\<lparr>delete_coeff_vec := True\<rparr>))
              | Some c \<Rightarrow> (Returns c, record_call OnInitialization s4)))"

text \<open>
  \<^verbatim>\<open>deinit_solving\<close> frees \<^verbatim>\<open>coeff_vec\<close> when \<^verbatim>\<open>init_solving\<close> allocated it, and
  \<^verbatim>\<open>finalize_solving\<close> is the finalize sequence: stop the timer, record the number of
  iterations, report the duration, call \<^verbatim>\<open>on_finish\<close>, release.
\<close>

definition deinit_solving :: "addr \<Rightarrow> picard \<Rightarrow> picard" where
  "deinit_solving coeff_vec s =
     (if delete_coeff_vec s then (delete_array coeff_vec s)\<lparr>delete_coeff_vec := False\<rparr>
      else s)"

definition finalize_solving :: "addr \<Rightarrow> picard \<Rightarrow> picard" where
  "finalize_solving coeff_vec s =
     (let s1 = record_call Tick s;
          s2 = s1\<lparr>num_iters := it s1\<rparr>;
          s3 = record_call (Info Duration) s2;
          s4 = record_call OnFinish s3
      in deinit_solving coeff_vec s4)"

definition handle_convergence_state_return_finished ::
    "NonlinearConvergenceState \<Rightarrow> addr \<Rightarrow> picard \<Rightarrow> bool outcome \<times> picard" where
  "handle_convergence_state_return_finished state coeff_vec s =
     (if state = NotConverged then (Returns False, s)
      else
        let s1 = finalize_solving coeff_vec s
        in case state of
             Converged \<Rightarrow> (Returns True, record_call (Info Done) s1)
           | AboveMaxIterations \<Rightarrow> (Throws (NonlinearException AboveMaxIterations), s1)
           | Error \<Rightarrow> (Throws UnknownException, s1)
           | _ \<Rightarrow> (Throws UnknownConvergenceState, s1))"

definition step_info :: "picard \<Rightarrow> picard" where
  "step_info s = record_call (Info StepInfo) s"

definition calculate_error :: "picard \<Rightarrow> picard" where
  "calculate_error s =
     (let new_sln_vector = matrix_solver_sln_vector s;
          s1 = s\<lparr>solution_norms :=
                   solution_norms s @ [get_l2_norm new_sln_vector (dimension s)]\<rparr>;
          abs_error = foldl (\<lambda>acc i. acc + \<bar>(sln_vector s1 ! i - new_sln_vector i)
                                              * (sln_vector s1 ! i - new_sln_vector i)\<bar>)
                        0 [0..<dimension s1];
          s2 = s1\<lparr>solution_change_norms := solution_change_norms s1 @ [sqrt abs_error]\<rparr>
      in s2\<lparr>sln_vector := memcpy (sln_vector s2) new_sln_vector (dimension s2)\<rparr>)"

definition solve_linear_system :: "env \<Rightarrow> addr \<Rightarrow> picard \<Rightarrow> picard" where
  "solve_linear_system env coeff_vec s =
     (let s1 = (if jacobian_reusable s \<and> constant_jacobian s
                then record_call AssembleResidual
                       (s\<lparr>reuse_scheme := HERMES_REUSE_MATRIX_STRUCTURE_COMPLETELY\<rparr>)
                else (record_call Assemble
                        (s\<lparr>reuse_scheme := HERMES_CREATE_STRUCTURE_FROM_SCRATCH\<rparr>))
                     \<lparr>jacobian_reusable := True\<rparr>);
          s2 = (record_call MatrixSolve s1)
                 \<lparr>matrix_solver_sln_vector := matrix_solver_solve env s1 coeff_vec\<rparr>
      in s2\<lparr>residual_norms := residual_norms s2 @ [calculate_residual_norm env s2]\<rparr>)"

definition do_initial_step_return_finished ::
    "env \<Rightarrow> addr \<Rightarrow> picard \<Rightarrow> bool outcome \<times> picard" where
  "do_initial_step_return_finished env coeff_vec s =
     (let s1 = s\<lparr>solution_norms :=
                   solution_norms s @ [get_l2_norm ((!) (block s coeff_vec)) (dimension s)]\<rparr>;
          s2 = solve_linear_system env coeff_vec s1;
          s3 = calculate_error s2
      in case handle_previous_vectors env s3 of
           (Throws e, s4) \<Rightarrow> (Throws e, s4)
         | (Returns _, s4) \<Rightarrow>
             let s5 = step_info s4;
                 s6 = store_block coeff_vec
                        (memcpy (block s5 coeff_vec) ((!) (sln_vector s5)) (dimension s5)) s5
             in (case handle_convergence_state_return_finished
                        (get_convergence_state env s6) coeff_vec s6 of
                   (Throws e, s7) \<Rightarrow> (Throws e, s7)
                 | (Returns True, s7) \<Rightarrow> (Returns True, s7)
                 | (Returns False, s7) \<Rightarrow>
                     (Returns (on_initial_step_end env s7 = False), s7)))"

text \<open>
  One pass through the body of the \<^verbatim>\<open>while (true)\<close> loop of \<^verbatim>\<open>solve\<close>: \<open>Inl\<close> is
  an exit from \<^verbatim>\<open>solve\<close> (a \<^verbatim>\<open>return\<close> or an exception), \<open>Inr\<close> the state at the end
  of the body, with which the loop goes round again.
\<close>

definition solve_loop_body ::
    "env \<Rightarrow> addr \<Rightarrow> picard \<Rightarrow> (unit outcome \<times> picard) + picard" where
  "solve_loop_body env coeff_vec s =
     (if \<not> on_step_begin env s then
        Inl (Returns (), finalize_solving coeff_vec (record_call (Info Aborted) s))
      else
        let s1 = solve_linear_system env coeff_vec s;
            s2 = calculate_error s1
        in case handle_previous_vectors env s2 of
             (Throws e, s3) \<Rightarrow> Inl (Throws e, s3)
           | (Returns _, s3) \<Rightarrow>
               let s4 = step_info s3
               in (case handle_convergence_state_return_finished
                          (get_convergence_state env s4) coeff_vec s4 of
                     (Throws e, s5) \<Rightarrow> Inl (Throws e, s5)
                   | (Returns True, s5) \<Rightarrow> Inl (Returns (), s5)
                   | (Returns False, s5) \<Rightarrow>
                       if \<not> on_step_end env s5 then
                         Inl (Returns (),
                              finalize_solving coeff_vec (record_call (Info Aborted) s5))
                       else
                         let s6 = s5\<lparr>it := it s5 + 1\<rparr>
                         in Inr (store_block coeff_vec
                                   (memcpy (block s6 coeff_vec) ((!) (sln_vector s6))
                                      (dimension s6))
                                   s6)))"

text \<open>
  The loop need not end, so it is a partial function: \<open>None\<close> is a run that never
  returns.
\<close>

partial_function (option) solve_loop ::
    "env \<Rightarrow> addr \<Rightarrow> picard \<Rightarrow> (unit outcome \<times> picard) option" where
  "solve_loop env coeff_vec s =
     (case solve_loop_body env coeff_vec s of
        Inl r \<Rightarrow> Some r
      | Inr s' \<Rightarrow> solve_loop env coeff_vec s')"

text \<open>
  The parameters that \<^verbatim>\<open>solve\<close> links at its start: one vector is already in the
  memory, the iteration counter is one and the norm sequences are empty.
\<close>

definition parameter_setup :: "picard \<Rightarrow> picard" where
  "parameter_setup s =
     s\<lparr>vec_in_memory := 1, it := 1, solution_norms := [], solution_change_norms := [],
       residual_norms := []\<rparr>"

text \<open>
  \<^verbatim>\<open>solve\<close> up to the loop: \<open>Inl\<close> is an exit from \<^verbatim>\<open>solve\<close>, \<open>Inr\<close> the pointer
  \<^verbatim>\<open>coeff_vec\<close> and the state with which the loop is entered.
\<close>

definition solve_entry ::
    "env \<Rightarrow> addr option \<Rightarrow> picard \<Rightarrow> (unit outcome \<times> picard) + (addr \<times> picard)" where
  "solve_entry env coeff_vec_arg s =
     (case init_solving env coeff_vec_arg s of
        (Throws e, s1) \<Rightarrow> Inl (Throws e, s1)
      | (Returns coeff_vec, s1) \<Rightarrow>
          let s2 = init_anderson env s1;
              s3 = parameter_setup s2
          in (case do_initial_step_return_finished env coeff_vec s3 of
                (Throws e, s4) \<Rightarrow> Inl (Throws e, s4)
              | (Returns True, s4) \<Rightarrow>
                  Inl (Returns (), finalize_solving coeff_vec (record_call (Info Aborted) s4))
              | (Returns False, s4) \<Rightarrow> Inr (coeff_vec, s4\<lparr>it := it s4 + 1\<rparr>)))"

definition solve :: "env \<Rightarrow> addr option \<Rightarrow> picard \<Rightarrow> (unit outcome \<times> picard) option" where
  "solve env coeff_vec_arg s =
     (case solve_entry env coeff_vec_arg s of
        Inl r \<Rightarrow> Some r
      | Inr (coeff_vec, s') \<Rightarrow> solve_loop env coeff_vec s')"

section \<open>Configuration\<close>

definition set_num_last_vector_used :: "32 word \<Rightarrow> picard \<Rightarrow> picard" where
  "set_num_last_vector_used num s = s\<lparr>num_last_vectors_used := num\<rparr>"

definition set_anderson_beta :: "real \<Rightarrow> picard \<Rightarrow> picard" where
  "set_anderson_beta beta s = s\<lparr>anderson_beta := beta\<rparr>"

definition use_Anderson_acceleration :: "bool \<Rightarrow> picard \<Rightarrow> picard" where
  "use_Anderson_acceleration to_set s = s\<lparr>anderson_is_on := to_set\<rparr>"

text \<open>
  \<^verbatim>\<open>init_picard\<close> sets the defaults; the tolerance it also sets belongs to the convergence
  test of the base class, which is a parameter here.
\<close>

definition init_picard :: "picard \<Rightarrow> picard" where
  "init_picard s = s\<lparr>num_last_vectors_used := 3, anderson_beta := 1, anderson_is_on := False\<rparr>"

text \<open>A solver as the constructor leaves it: nothing allocated, no solution vector yet.\<close>

definition new_solver :: picard where
  "new_solver = init_picard
     \<lparr>num_last_vectors_used = 0, anderson_beta = 0, anderson_is_on = False, dimension = 0,
      sln_vector = [], delete_coeff_vec = False, jacobian_reusable = False,
      constant_jacobian = False, reuse_scheme = HERMES_CREATE_STRUCTURE_FROM_SCRATCH,
      num_iters = 0, previous_vectors = [], anderson_coeffs = 0, heap = Map.empty,
      next_addr = 0, it = 0, vec_in_memory = 0, solution_norms = [],
      solution_change_norms = [], residual_norms = [],
      matrix_solver_sln_vector = (\<lambda>i. 0), calls = []\<rparr>"

section \<open>A concrete problem\<close>

text \<open>
  The scenario of the specification: the one-dimensional fixed-point iteration
  \<open>x \<mapsto> x / 2 + 5\<close>.  The linear solve maps the previous iterate, read through
  \<^verbatim>\<open>coeff_vec\<close>, to the next one.  The dense helpers are given for systems of dimension
  one, which is all a history of capacity three needs.  The convergence test and the
  hooks are parameters of the scenario.
\<close>

definition scenario ::
    "(picard \<Rightarrow> NonlinearConvergenceState) \<Rightarrow> (picard \<Rightarrow> bool) \<Rightarrow> (picard \<Rightarrow> bool)
       \<Rightarrow> (picard \<Rightarrow> bool) \<Rightarrow> env" where
  "scenario conv initial_end step_begin step_end =
     \<lparr>uninitialised = 0, NonlinearMatrixSolver_isOkay = True, get_dimension = 1,
      matrix_solver_solve = (\<lambda>s c i. block s c ! i / 2 + 5),
      calculate_residual_norm = (\<lambda>s. 0),
      get_convergence_state = conv,
      on_initial_step_end = initial_end,
      on_step_begin = step_begin,
      on_step_end = step_end,
      ludcmp = (\<lambda>mat n. if mat ! 0 ! 0 = 0 then None else Some (mat, [0])),
      lubksb = (\<lambda>lu n perm rhs i. rhs ! i / lu ! i ! i)\<rparr>"

section \<open>Notions used in the properties\<close>

text \<open>
  The state in which the history can be used: the capacity is at least two, the pointer
  array holds one row per slot, the rows are distinct allocated blocks of the problem's
  dimension, the coefficient array is an allocated block of capacity minus one cells
  apart from the rows, and the occupancy counter lies between one and the capacity.
  \<^verbatim>\<open>init_anderson\<close> followed by the parameter setup of \<^verbatim>\<open>solve\<close> establishes it.
\<close>

definition rows_allocated :: "picard \<Rightarrow> bool" where
  "rows_allocated s =
     list_all (\<lambda>a. case heap s a of None \<Rightarrow> False | Some v \<Rightarrow> length v = dimension s)
       (previous_vectors s)"

definition coeffs_allocated :: "picard \<Rightarrow> bool" where
  "coeffs_allocated s =
     (case heap s (anderson_coeffs s) of
        None \<Rightarrow> False
      | Some c \<Rightarrow> Suc (length c) = capacity s)"

definition history_ready :: "picard \<Rightarrow> bool" where
  "history_ready s =
     (2 \<le> sint (num_last_vectors_used s)
      \<and> length (previous_vectors s) = capacity s
      \<and> distinct (previous_vectors s)
      \<and> rows_allocated s
      \<and> coeffs_allocated s
      \<and> anderson_coeffs s \<notin> set (previous_vectors s)
      \<and> length (sln_vector s) = dimension s
      \<and> 1 \<le> vec_in_memory s
      \<and> vec_in_memory s \<le> num_last_vectors_used s)"

text \<open>The history holds as many vectors as its capacity.\<close>

definition history_full :: "picard \<Rightarrow> bool" where
  "history_full s = (num_last_vectors_used s \<le> vec_in_memory s)"

text \<open>
  A push of the vector \<open>v\<close>: the solution vector holds \<open>v\<close> when the storing part of
  \<^verbatim>\<open>handle_previous_vectors\<close> runs.
\<close>

definition push :: "scalar list \<Rightarrow> picard \<Rightarrow> picard" where
  "push v s = store_new_vector (s\<lparr>sln_vector := v\<rparr>)"

definition push_all :: "scalar list list \<Rightarrow> picard \<Rightarrow> picard" where
  "push_all vs s = fold push vs s"

text \<open>The state at the head of the loop of \<^verbatim>\<open>solve\<close> after \<open>n\<close> complete passes.\<close>

primrec loop_state :: "env \<Rightarrow> addr \<Rightarrow> nat \<Rightarrow> picard \<Rightarrow> picard option" where
  "loop_state env coeff_vec 0 s = Some s"
| "loop_state env coeff_vec (Suc n) s =
     (case loop_state env coeff_vec n s of
        None \<Rightarrow> None
      | Some t \<Rightarrow>
          (case solve_loop_body env coeff_vec t of
             Inl r \<Rightarrow> None
           | Inr t' \<Rightarrow> Some t'))"

text \<open>
  The linear system and the mixed vector in the words of the specification: \<open>h\<close> is the
  history, \<open>d\<close> the dimension of the problem, \<open>n\<close> the dimension of the dense system.
\<close>

definition spec_residual :: "scalar list list \<Rightarrow> nat \<Rightarrow> nat \<Rightarrow> scalar" where
  "spec_residual h i c = h ! (i + 1) ! c - h ! i ! c"

definition spec_matrix :: "scalar list list \<Rightarrow> nat \<Rightarrow> nat \<Rightarrow> scalar list list" where
  "spec_matrix h n d =
     map (\<lambda>i. map (\<lambda>j. \<Sum>c<d. (spec_residual h n c - spec_residual h i c)
                               * (spec_residual h n c - spec_residual h j c))
                [0..<n])
       [0..<n]"

definition spec_rhs :: "scalar list list \<Rightarrow> nat \<Rightarrow> nat \<Rightarrow> scalar list" where
  "spec_rhs h n d =
     map (\<lambda>i. \<Sum>c<d. spec_residual h n c * (spec_residual h n c - spec_residual h i c))
       [0..<n]"

definition spec_mixed :: "scalar list list \<Rightarrow> scalar list \<Rightarrow> real \<Rightarrow> nat \<Rightarrow> nat \<Rightarrow> scalar" where
  "spec_mixed h coeff damping k i =
     (\<Sum>j = 1..k - 1. coeff ! (j - 1) * h ! j ! i
                      - (1 - damping) * coeff ! (j - 1) * (h ! j ! i - h ! (j - 1) ! i))"

text \<open>The part of the history that holds stored vectors.\<close>

definition window :: "picard \<Rightarrow> scalar list list" where
  "window s = take (unat (vec_in_memory s)) (history s)"

text \<open>\<open>x\<close> solves the dense system with matrix \<open>m\<close> and right-hand side \<open>b\<close>.\<close>

definition solves_system :: "scalar list list \<Rightarrow> scalar list \<Rightarrow> scalar list \<Rightarrow> bool" where
  "solves_system m b x =
     list_all (\<lambda>i. (\<Sum>j<length b. m ! i ! j * x ! j) = b ! i) [0..<length b]"

text \<open>
  The value of \<^verbatim>\<open>sum\<close> after the loop of lines 233--237 has added the values \<open>xs\<close>.
\<close>

definition accumulated :: "scalar list \<Rightarrow> scalar" where
  "accumulated xs = foldl (\<lambda>sum x. round_double (sum + x)) 0 xs"

text \<open>
  The mixing coefficients for a full history \<open>h\<close> of capacity \<open>k\<close> in the words of the
  specification: the single coefficient one when \<open>k\<close> is two, and otherwise the solution
  of the dense system of \<open>h\<close>, as the dense helpers return it, followed by one minus its
  sum as \<^verbatim>\<open>double\<close> arithmetic computes it; \<open>None\<close> when \<^verbatim>\<open>ludcmp\<close> gives up.
\<close>

definition spec_coeffs :: "env \<Rightarrow> scalar list list \<Rightarrow> nat \<Rightarrow> nat \<Rightarrow> scalar list option" where
  "spec_coeffs env h k d =
     (if k = 2 then Some [1]
      else case ludcmp env (spec_matrix h (k - 2) d) (k - 2) of
             None \<Rightarrow> None
           | Some (lu, perm) \<Rightarrow>
               let x = map (lubksb env lu (k - 2) perm (spec_rhs h (k - 2) d)) [0..<k - 2]
               in Some (x @ [round_double (1 - accumulated x)]))"

text \<open>
  The number of linear solves made so far, and the vector that the linear solver returned
  last, as \<^verbatim>\<open>calculate_error\<close> reads it.
\<close>

definition linear_solves :: "picard \<Rightarrow> nat" where
  "linear_solves s = count_list (calls s) MatrixSolve"

definition solve_result :: "picard \<Rightarrow> scalar list" where
  "solve_result s = map (matrix_solver_sln_vector s) [0..<dimension s]"

text \<open>The number of times the caller's \<^verbatim>\<open>on_finish\<close> hook has been invoked.\<close>

definition finalize_count :: "picard \<Rightarrow> nat" where
  "finalize_count s = count_list (calls s) OnFinish"

section \<open>Concrete states\<close>

text \<open>
  States of the scenario with acceleration enabled and the default capacity of three:
  the initial guess \<open>0\<close> and the first iterate \<open>5\<close> are stored and the second iterate
  \<open>15/2\<close> is in the solution vector (\<open>two_stored\<close>), and the same with the second
  iterate pushed and the third one in the solution vector (\<open>three_stored\<close>).
\<close>

definition plain :: env where
  "plain = scenario (\<lambda>s. NotConverged) (\<lambda>s. True) (\<lambda>s. True) (\<lambda>s. True)"

definition two_stored :: picard where
  "two_stored = (use_Anderson_acceleration True new_solver)
     \<lparr>dimension := 1, sln_vector := [15 / 2], previous_vectors := [0, 1, 2],
      anderson_coeffs := 3,
      heap := [0 \<mapsto> [0], 1 \<mapsto> [5], 2 \<mapsto> [0], 3 \<mapsto> [0, 0]],
      next_addr := 4, it := 2, vec_in_memory := 2\<rparr>"

definition three_stored :: picard where
  "three_stored = two_stored
     \<lparr>sln_vector := [35 / 4],
      heap := [0 \<mapsto> [0], 1 \<mapsto> [5], 2 \<mapsto> [15 / 2], 3 \<mapsto> [0, 0]],
      it := 3, vec_in_memory := 3\<rparr>"

text \<open>
  A full history of capacity three holding \<open>0\<close>, \<open>5\<close> and \<open>7\<close>, and the scenario with a
  back substitution that divides in \<^verbatim>\<open>double\<close> arithmetic.
\<close>

definition uneven_steps :: picard where
  "uneven_steps = three_stored
     \<lparr>sln_vector := [7], heap := [0 \<mapsto> [0], 1 \<mapsto> [5], 2 \<mapsto> [7], 3 \<mapsto> [0, 0]]\<rparr>"

definition double_division :: env where
  "double_division = plain\<lparr>lubksb := (\<lambda>lu n perm rhs i. round_double (rhs ! i / lu ! i ! i))\<rparr>"

text \<open>
  A state with capacity two and damping \<open>1/2\<close>: the vectors \<open>0\<close> and \<open>2\<close> are stored
  and \<open>4\<close> is in the solution vector.
\<close>

definition damped_pair :: picard where
  "damped_pair =
     (set_anderson_beta (1 / 2)
        (set_num_last_vector_used 2 (use_Anderson_acceleration True new_solver)))
     \<lparr>dimension := 1, sln_vector := [4], previous_vectors := [0, 1],
      anderson_coeffs := 2,
      heap := [0 \<mapsto> [0], 1 \<mapsto> [2], 2 \<mapsto> [0]],
      next_addr := 3, it := 3, vec_in_memory := 2\<rparr>"

text \<open>
  A solver with acceleration enabled and the default capacity of three, before and after
  \<^verbatim>\<open>init_solving\<close> without an initial guess.
\<close>

definition accelerated :: picard where
  "accelerated = use_Anderson_acceleration True new_solver"

definition initialised :: picard where
  "initialised = snd (init_solving plain None accelerated)"

text \<open>
  A solver with acceleration enabled and a capacity of two, for which the caller holds the
  initial guess \<open>4\<close> at address \<open>0\<close>, before and after \<^verbatim>\<open>init_solving\<close> with this guess.
\<close>

definition guess_four :: picard where
  "guess_four =
     (set_num_last_vector_used 2 accelerated)\<lparr>heap := [0 \<mapsto> [4]], next_addr := 1\<rparr>"

definition initialised_four :: picard where
  "initialised_four = snd (init_solving plain (Some 0) guess_four)"

definition begin_refuses :: env where
  "begin_refuses = scenario (\<lambda>s. NotConverged) (\<lambda>s. True) (\<lambda>s. False) (\<lambda>s. True)"

definition end_refuses :: env where
  "end_refuses = scenario (\<lambda>s. NotConverged) (\<lambda>s. True) (\<lambda>s. True) (\<lambda>s. False)"

definition converges_at_once :: env where
  "converges_at_once = scenario (\<lambda>s. Converged) (\<lambda>s. True) (\<lambda>s. True) (\<lambda>s. True)"

definition converges_in_loop :: env where
  "converges_in_loop =
     scenario (\<lambda>s. if it s = 2 then Converged else NotConverged) (\<lambda>s. True) (\<lambda>s. True)
       (\<lambda>s. True)"

definition acceleration_live :: "addr \<Rightarrow> picard \<Rightarrow> bool" where
  "acceleration_live coeff_vec s =
     (anderson_is_on s \<and> history_ready s
      \<and> coeff_vec \<notin> set (previous_vectors s) \<and> coeff_vec \<noteq> anderson_coeffs s)"

section \<open>Auxiliary facts\<close>

subsection \<open>Machine integers\<close>

lemma unat_signed_nonneg:
  fixes k :: "32 word"
  assumes "0 \<le> sint k"
  shows "unat k = nat (sint k)"
proof -
  have "sint k < 2 ^ 31"
    using sint_lt [of k] by simp
  then have "sint k < 2 ^ 32" by simp
  with assms have "take_bit 32 (sint k) = sint k"
    by (simp add: take_bit_int_eq_self)
  then have "uint k = sint k"
    using uint_sint [of k] by simp
  then show ?thesis
    by (simp add: unat_eq_nat_uint del: nat_uint_eq)
qed

lemma unat_inc_below:
  fixes v k :: "32 word"
  assumes "v < k"
  shows "unat (v + 1) = Suc (unat v)"
proof -
  have "unat v < unat k" using assms by (simp add: word_less_nat_alt)
  moreover have "unat k < 2 ^ 32" using unsigned_less [of k, where 'a = nat] by simp
  ultimately have "unat v + unat (1 :: 32 word) < 2 ^ LENGTH(32)" by simp
  then have "unat (v + 1) = unat v + unat (1 :: 32 word)"
    by (simp only: unat_add_lem [THEN iffD1])
  then show ?thesis by simp
qed

lemma sint_two_iff:
  fixes k :: "32 word"
  shows "(k = 2) = (sint k = 2)"
proof
  assume "sint k = 2"
  then have "sint k = sint (2 :: 32 word)" by simp
  then show "k = 2" by (rule signed_word_eqI)
qed simp

lemma capacity_unat:
  "2 \<le> sint (num_last_vectors_used s) \<Longrightarrow> unat (num_last_vectors_used s) = capacity s"
  by (simp add: capacity_def unat_signed_nonneg)

subsection \<open>Rounding\<close>

text \<open>The position of the leading bit is the integer part of the binary logarithm.\<close>

lemma exponent_floor_log:
  "x \<noteq> 0 \<Longrightarrow> exponent x = \<lfloor>log 2 \<bar>x\<bar>\<rfloor>"
proof (induction x rule: exponent.induct)
  case (1 x)
  show ?case
  proof (cases "2 \<le> \<bar>x\<bar>")
    case True
    have "log 2 \<bar>x / 2\<bar> = log 2 \<bar>x\<bar> - 1"
      using 1(3) by (simp add: log_divide)
    with 1(1) [OF 1(3) True] 1(3) True show ?thesis
      by (subst exponent.simps) simp
  next
    case False
    show ?thesis
    proof (cases "\<bar>x\<bar> < 1")
      case True
      have "log 2 \<bar>x * 2\<bar> = log 2 \<bar>x\<bar> + 1"
        using 1(3) by (simp add: abs_mult log_mult)
      with 1(2) [OF 1(3) False True] 1(3) False True show ?thesis
        by (subst exponent.simps) simp
    next
      case b: False
      with False 1(3) have "0 \<le> log 2 \<bar>x\<bar>" "log 2 \<bar>x\<bar> < 1"
        by simp_all
      then have "\<lfloor>log 2 \<bar>x\<bar>\<rfloor> = 0"
        by linarith
      with False b 1(3) show ?thesis
        by (subst exponent.simps) simp
    qed
  qed
qed

lemma exponent_iff:
  assumes "x \<noteq> 0"
  shows "exponent x = e \<longleftrightarrow> 2 powi e \<le> \<bar>x\<bar> \<and> \<bar>x\<bar> < 2 powi (e + 1)"
proof -
  have p: "(2 :: real) powr real_of_int k = 2 powi k" for k
    by (simp add: powr_real_of_int')
  have "0 < \<bar>x\<bar>" using assms by simp
  then show ?thesis
    using floor_log_eq_powr_iff [of "\<bar>x\<bar>" 2 e]
    by (simp only: exponent_floor_log [OF assms] p)
qed

lemma exponent_eq:
  assumes "2 powi e \<le> \<bar>x\<bar>" and "\<bar>x\<bar> < 2 powi (e + 1)"
  shows "exponent x = e"
proof -
  have "(0 :: real) < 2 powi e" by simp
  with assms(1) have "0 < \<bar>x\<bar>" by linarith
  then have "x \<noteq> 0" by simp
  with assms show ?thesis by (simp add: exponent_iff)
qed

lemma exponent_bounds:
  assumes "x \<noteq> 0"
  shows "2 powi (exponent x) \<le> \<bar>x\<bar>" and "\<bar>x\<bar> < 2 powi (exponent x + 1)"
  using exponent_iff [OF assms, of "exponent x"] by simp_all

lemma round_to_even_error:
  "\<bar>of_int (round_to_even y) - y\<bar> \<le> 1 / 2"
proof -
  have "of_int \<lfloor>y\<rfloor> \<le> y" "y < of_int \<lfloor>y\<rfloor> + 1" by linarith+
  then show ?thesis
    by (auto simp: round_to_even_def)
qed

lemma round_to_even_int:
  "round_to_even (of_int z) = z"
  by (simp add: round_to_even_def)

text \<open>The rounding of a number whose leading bit is known.\<close>

lemma round_double_eq:
  assumes "2 powi e \<le> \<bar>x\<bar>" and "\<bar>x\<bar> < 2 powi (e + 1)"
  shows "round_double x = of_int (round_to_even (x * 2 powi (52 - e))) * 2 powi (e - 52)"
proof -
  have "(0 :: real) < 2 powi e" by simp
  with assms(1) have "0 < \<bar>x\<bar>" by linarith
  then have "x \<noteq> 0" by simp
  then show ?thesis
    by (simp add: round_double_def exponent_eq [OF assms])
qed

text \<open>The relative error of a rounding is at most half a unit in the last place.\<close>

lemma round_double_error:
  "\<bar>round_double x - x\<bar> \<le> \<bar>x\<bar> / 2 ^ 53"
proof (cases "x = 0")
  case True
  then show ?thesis by (simp add: round_double_def)
next
  case False
  define e where "e = exponent x"
  define y where "y = x * 2 powi (52 - e)"
  note b = exponent_bounds [OF False, folded e_def]
  have x: "x = y * 2 powi (e - 52)"
    by (simp add: y_def power_int_diff)
  have r: "round_double x = of_int (round_to_even y) * 2 powi (e - 52)"
    using False by (simp add: round_double_def e_def y_def)
  have "2 powi e * 2 powi (52 - e) \<le> \<bar>x\<bar> * 2 powi (52 - e)"
    using b(1) by (intro mult_right_mono) simp_all
  then have "2 ^ 52 \<le> \<bar>y\<bar>"
    by (simp add: y_def abs_mult power_int_diff)
  then have "\<bar>of_int (round_to_even y) - y\<bar> \<le> \<bar>y\<bar> / 2 ^ 53"
    using round_to_even_error [of y] by simp
  then have "\<bar>of_int (round_to_even y) - y\<bar> * 2 powi (e - 52) \<le> \<bar>y\<bar> / 2 ^ 53 * 2 powi (e - 52)"
    by (intro mult_right_mono) simp_all
  moreover have "\<bar>round_double x - x\<bar> = \<bar>of_int (round_to_even y) - y\<bar> * 2 powi (e - 52)"
  proof -
    have "round_double x - x = (of_int (round_to_even y) - y) * 2 powi (e - 52)"
      unfolding r by (subst x) (simp add: left_diff_distrib)
    then show ?thesis by (simp add: abs_mult)
  qed
  moreover have "\<bar>x\<bar> = \<bar>y\<bar> * 2 powi (e - 52)"
    by (subst x) (simp add: abs_mult)
  ultimately show ?thesis by simp
qed

text \<open>A number with a significand of at most 53 bits is a \<^verbatim>\<open>double\<close>: rounding keeps it.\<close>

lemma round_double_exact:
  assumes "\<bar>m\<bar> < 2 ^ 53"
  shows "round_double (of_int m * 2 powi k) = of_int m * 2 powi k"
proof (cases "m = 0")
  case True
  then show ?thesis by (simp add: round_double_def)
next
  case False
  define x :: real where "x = of_int m * 2 powi k"
  have nz: "x \<noteq> 0" using False by (simp add: x_def)
  define e where "e = exponent x"
  note b = exponent_bounds [OF nz, folded e_def]
  have "\<bar>x\<bar> < 2 ^ 53 * 2 powi k"
  proof -
    have "real_of_int \<bar>m\<bar> < real_of_int (2 ^ 53)"
      using assms by (simp only: of_int_less_iff)
    then have "\<bar>real_of_int m\<bar> < 2 ^ 53" by simp
    then have "\<bar>real_of_int m\<bar> * 2 powi k < 2 ^ 53 * 2 powi k"
      by (intro mult_strict_right_mono) simp_all
    then show ?thesis by (simp add: x_def abs_mult)
  qed
  with b(1) have "(2 :: real) powi e < 2 powi (53 + k)"
    by (simp add: power_int_add)
  then have "e < 53 + k"
    using power_int_increasing [of "53 + k" e "2 :: real"] by (cases "e < 53 + k") simp_all
  then have "0 \<le> 52 - e + k" by simp
  then obtain j :: nat where j: "52 - e + k = int j"
    by (rule nonneg_int_cases)
  have "x * 2 powi (52 - e) = of_int m * 2 powi (52 - e + k)"
    by (simp add: x_def power_int_add power_int_diff)
  also have "\<dots> = of_int (m * 2 ^ j)"
    by (simp add: j)
  finally have "round_to_even (x * 2 powi (52 - e)) = m * 2 ^ j"
    by (simp only: round_to_even_int)
  then have "round_double x = of_int (m * 2 ^ j) * 2 powi (e - 52)"
    using nz by (simp add: round_double_def e_def)
  also have "\<dots> = of_int m * (2 powi (int j) * 2 powi (e - 52))"
    by simp
  also have "2 powi (int j) * 2 powi (e - 52) = (2 :: real) powi k"
    unfolding j [symmetric] by (simp add: power_int_add power_int_diff)
  finally show ?thesis by (simp add: x_def)
qed

lemma round_double_of_int:
  "\<bar>m\<bar> < 2 ^ 53 \<Longrightarrow> round_double (of_int m) = of_int m"
  using round_double_exact [of m 0] by simp

lemma round_double_values:
  "round_double 1 = 1" "round_double (- 1) = - 1" "round_double 2 = 2"
  using round_double_of_int [of 1] round_double_of_int [of "- 1"] round_double_of_int [of 2]
  by simp_all

text \<open>The roundings in the coefficient computation for the history \<open>0\<close>, \<open>5\<close>, \<open>7\<close>.\<close>

lemma round_double_two_thirds:
  "round_double (- (2 / 3)) = - (6004799503160661 / 2 ^ 53)"
proof -
  have "round_double (- (2 / 3))
          = of_int (round_to_even (- (2 / 3) * 2 powi (52 - (- 1)))) * 2 powi (- 1 - 52)"
    by (rule round_double_eq) simp_all
  also have "(- (2 / 3) :: real) * 2 powi (52 - (- 1)) = - 6004799503160661 - 1 / 3"
    by simp
  also have "round_to_even (- 6004799503160661 - 1 / 3) = - 6004799503160661"
    by (simp add: round_to_even_def)
  finally show ?thesis
    by (simp add: power_int_minus field_simps)
qed

lemma round_double_first_coefficient:
  "round_double (- (6004799503160661 / 2 ^ 53)) = - (6004799503160661 / 2 ^ 53)"
  using round_double_exact [of "- 6004799503160661" "- 53"]
  by (simp add: power_int_minus field_simps)

lemma round_double_last_coefficient:
  "round_double (1 - (- (6004799503160661 / 2 ^ 53))) = 7505999378950826 / 2 ^ 52"
proof -
  have "round_double (1 - (- (6004799503160661 / 2 ^ 53)))
          = of_int (round_to_even ((1 - (- (6004799503160661 / 2 ^ 53))) * 2 powi (52 - 0)))
            * 2 powi (0 - 52)"
    by (rule round_double_eq) simp_all
  also have "((1 - (- (6004799503160661 / 2 ^ 53))) :: real) * 2 powi (52 - 0)
               = 7505999378950826 + 1 / 2"
    by simp
  also have "round_to_even (7505999378950826 + 1 / 2) = 7505999378950826"
    by (simp add: round_to_even_def)
  finally show ?thesis
    by (simp add: power_int_minus field_simps)
qed

text \<open>
  A sum accumulated with a rounding \<open>r\<close> of relative error at most \<open>u\<close>: its magnitude, its
  distance from the exact sum, and the distance from one of the exact sum of the values
  and of the rounded difference of one and their accumulated sum.
\<close>

lemma rounded_sum_abs:
  fixes r :: "real \<Rightarrow> real"
  assumes r: "\<And>x. \<bar>r x - x\<bar> \<le> u * \<bar>x\<bar>" and u: "0 \<le> u"
  shows "\<bar>foldl (\<lambda>sum x. r (sum + x)) a xs\<bar> \<le> (1 + u) ^ length xs * (\<bar>a\<bar> + (\<Sum>x\<leftarrow>xs. \<bar>x\<bar>))"
proof (induction xs arbitrary: a)
  case Nil
  then show ?case by simp
next
  case (Cons x xs)
  define S where "S = (\<Sum>y\<leftarrow>xs. \<bar>y\<bar>)"
  define b where "b = r (a + x)"
  have S: "0 \<le> S" unfolding S_def by (rule sum_list_nonneg) auto
  have p: "0 \<le> (1 + u) ^ length xs" using u by simp
  have "\<bar>b\<bar> \<le> \<bar>a + x\<bar> + u * \<bar>a + x\<bar>"
    using r [of "a + x"] unfolding b_def by linarith
  moreover have "u * \<bar>a + x\<bar> \<le> u * (\<bar>a\<bar> + \<bar>x\<bar>)"
    using u by (intro mult_left_mono) simp_all
  moreover have "0 \<le> u * S" using u S by simp
  ultimately have "\<bar>b\<bar> + S \<le> (\<bar>a\<bar> + \<bar>x\<bar> + S) + u * (\<bar>a\<bar> + \<bar>x\<bar>) + u * S"
    by linarith
  also have "\<dots> = (1 + u) * (\<bar>a\<bar> + \<bar>x\<bar> + S)"
    by (simp add: algebra_simps)
  finally have "(1 + u) ^ length xs * (\<bar>b\<bar> + S)
               \<le> (1 + u) ^ length xs * ((1 + u) * (\<bar>a\<bar> + \<bar>x\<bar> + S))"
    using p by (rule mult_left_mono)
  also have "\<dots> = (1 + u) ^ length (x # xs) * (\<bar>a\<bar> + (\<bar>x\<bar> + S))"
    by (simp add: add.assoc)
  finally show ?case
    using Cons.IH [of b] unfolding b_def S_def by simp
qed

lemma rounded_sum_error:
  fixes r :: "real \<Rightarrow> real"
  assumes r: "\<And>x. \<bar>r x - x\<bar> \<le> u * \<bar>x\<bar>" and u: "0 \<le> u"
  shows "\<bar>foldl (\<lambda>sum x. r (sum + x)) a xs - (a + sum_list xs)\<bar>
           \<le> real (length xs) * (1 + u) ^ length xs * (\<bar>a\<bar> + (\<Sum>x\<leftarrow>xs. \<bar>x\<bar>)) * u"
proof (induction xs arbitrary: a)
  case Nil
  then show ?case by simp
next
  case (Cons x xs)
  define S where "S = (\<Sum>y\<leftarrow>xs. \<bar>y\<bar>)"
  define n where "n = length xs"
  define T where "T = \<bar>a\<bar> + \<bar>x\<bar> + S"
  define b where "b = r (a + x)"
  define F where "F = foldl (\<lambda>sum x. r (sum + x)) b xs"
  define q where "q = (1 + u) ^ n"
  have S: "0 \<le> S" unfolding S_def by (rule sum_list_nonneg) auto
  have T: "0 \<le> T" using S by (simp add: T_def)
  have q: "1 \<le> q" unfolding q_def using u by (simp add: one_le_power)
  have b1: "\<bar>b - (a + x)\<bar> \<le> u * (\<bar>a\<bar> + \<bar>x\<bar>)"
  proof -
    have "\<bar>b - (a + x)\<bar> \<le> u * \<bar>a + x\<bar>"
      unfolding b_def by (rule r)
    also have "\<dots> \<le> u * (\<bar>a\<bar> + \<bar>x\<bar>)"
      using u by (intro mult_left_mono) simp_all
    finally show ?thesis .
  qed
  have b2: "\<bar>b\<bar> + S \<le> (1 + u) * T"
  proof -
    have "\<bar>b\<bar> \<le> \<bar>a\<bar> + \<bar>x\<bar> + u * (\<bar>a\<bar> + \<bar>x\<bar>)"
      using b1 by linarith
    moreover have "0 \<le> u * S" using u S by simp
    ultimately show ?thesis by (simp add: T_def algebra_simps)
  qed
  have ih: "\<bar>F - (b + sum_list xs)\<bar> \<le> real n * q * (\<bar>b\<bar> + S) * u"
    using Cons.IH [of b] by (simp add: F_def n_def S_def q_def)
  have "real n * q * (\<bar>b\<bar> + S) \<le> real n * q * ((1 + u) * T)"
    using b2 q by (intro mult_left_mono) simp_all
  then have "real n * q * (\<bar>b\<bar> + S) * u \<le> real n * q * ((1 + u) * T) * u"
    using u by (rule mult_right_mono)
  with ih have e1: "\<bar>F - (b + sum_list xs)\<bar> \<le> real n * (q * (1 + u) * T * u)"
    by (simp add: mult.assoc mult.left_commute)
  have "1 * 1 \<le> q * (1 + u)"
    using q u by (intro mult_mono) simp_all
  then have qu: "1 \<le> q * (1 + u)" by simp
  have "u * (\<bar>a\<bar> + \<bar>x\<bar>) \<le> T * u"
    using u S mult_left_mono [of "\<bar>a\<bar> + \<bar>x\<bar>" T u] by (simp add: T_def mult.commute)
  also have "\<dots> \<le> q * (1 + u) * (T * u)"
    using mult_right_mono [OF qu, of "T * u"] T u by simp
  finally have e2: "\<bar>b - (a + x)\<bar> \<le> q * (1 + u) * T * u"
    using b1 by (simp add: mult.assoc)
  have "\<bar>F - (a + x + sum_list xs)\<bar> \<le> \<bar>F - (b + sum_list xs)\<bar> + \<bar>b - (a + x)\<bar>"
    by linarith
  with e1 e2 have "\<bar>F - (a + x + sum_list xs)\<bar>
                     \<le> real n * (q * (1 + u) * T * u) + q * (1 + u) * T * u"
    by linarith
  also have "\<dots> = real (Suc n) * (q * (1 + u)) * T * u"
    by (simp add: algebra_simps)
  finally show ?case
    by (simp add: F_def b_def n_def T_def S_def q_def add.assoc mult.commute)
qed

lemma rounded_coefficients_near_one:
  fixes r :: "real \<Rightarrow> real"
  assumes r: "\<And>x. \<bar>r x - x\<bar> \<le> u * \<bar>x\<bar>" and u: "0 \<le> u"
  shows "\<bar>sum_list (xs @ [r (1 - foldl (\<lambda>sum x. r (sum + x)) 0 xs)]) - 1\<bar>
           \<le> (1 + real (length xs + 1) * (1 + u) ^ length xs * (\<Sum>x\<leftarrow>xs. \<bar>x\<bar>)) * u"
proof -
  define S where "S = (\<Sum>y\<leftarrow>xs. \<bar>y\<bar>)"
  define n where "n = length xs"
  define s where "s = foldl (\<lambda>sum x. r (sum + x)) 0 xs"
  define q where "q = (1 + u) ^ n"
  have a: "\<bar>s\<bar> \<le> q * S"
    using rounded_sum_abs [of r u 0 xs, OF r u] by (simp add: s_def n_def S_def q_def)
  have e: "\<bar>s - sum_list xs\<bar> \<le> real n * q * S * u"
    using rounded_sum_error [of r u 0 xs, OF r u] by (simp add: s_def n_def S_def q_def)
  have "\<bar>r (1 - s) - (1 - s)\<bar> \<le> u * \<bar>1 - s\<bar>"
    by (rule r)
  also have "\<dots> \<le> u * (1 + q * S)"
    using u a by (intro mult_left_mono) linarith+
  finally have l: "\<bar>r (1 - s) - (1 - s)\<bar> \<le> u * (1 + q * S)" .
  have "\<bar>sum_list xs + r (1 - s) - 1\<bar> \<le> \<bar>s - sum_list xs\<bar> + \<bar>r (1 - s) - (1 - s)\<bar>"
    by linarith
  with e l have "\<bar>sum_list xs + r (1 - s) - 1\<bar> \<le> real n * q * S * u + u * (1 + q * S)"
    by linarith
  also have "\<dots> = (1 + real (n + 1) * q * S) * u"
    by (simp add: algebra_simps)
  finally show ?thesis
    by (simp add: s_def n_def S_def q_def)
qed

lemma coefficients_near_one:
  "\<bar>sum_list (xs @ [round_double (1 - accumulated xs)]) - 1\<bar>
     \<le> (1 + real (length xs + 1) * (1 + 1 / 2 ^ 53) ^ length xs * (\<Sum>x\<leftarrow>xs. \<bar>x\<bar>))
         * (1 / 2 ^ 53)"
proof -
  have "\<bar>round_double x - x\<bar> \<le> 1 / 2 ^ 53 * \<bar>x\<bar>" for x
    using round_double_error [of x] by simp
  then show ?thesis
    unfolding accumulated_def by (rule rounded_coefficients_near_one) simp
qed

subsection \<open>Loops over index ranges\<close>

lemma foldl_add_sum:
  fixes f :: "nat \<Rightarrow> real"
  shows "foldl (\<lambda>acc j. acc + f j) a [m..<n] = a + sum f {m..<n}"
proof (induction n)
  case 0
  then show ?case by simp
next
  case (Suc n)
  then show ?case by (cases "m \<le> n") (simp_all add: add.assoc)
qed

lemma fold_update_map:
  assumes "n \<le> length v"
  shows "fold (\<lambda>i v. v[i := f i]) [0..<n] v = map f [0..<n] @ drop n v"
  using assms
proof (induction n)
  case 0
  then show ?case by simp
next
  case (Suc n)
  then have "n < length v" by simp
  then have "drop n v = v ! n # drop (Suc n) v"
    by (simp add: Cons_nth_drop_Suc)
  with Suc show ?case
    by (simp add: list_update_append)
qed

lemma fold_copy_sum:
  fixes r c :: "real list"
  assumes "n \<le> length r" and "n \<le> length c"
  shows "fold (\<lambda>i (cs, sum). (cs[i := r ! i], round_double (sum + r ! i))) [0..<n] (c, a)
           = (take n r @ drop n c, foldl (\<lambda>sum x. round_double (sum + x)) a (take n r))"
  using assms
proof (induction n)
  case 0
  then show ?case by simp
next
  case (Suc n)
  then have len: "n < length r" "n < length c" by simp_all
  then have "drop n c = c ! n # drop (Suc n) c"
    by (simp add: Cons_nth_drop_Suc)
  with Suc len show ?case
    by (simp add: list_update_append take_Suc_conv_app_nth)
qed

subsection \<open>The coefficient computation\<close>

lemma calculate_anderson_coeffs_two:
  assumes "num_last_vectors_used s = 2"
  shows "calculate_anderson_coeffs env s
           = (Returns (),
              store_block (anderson_coeffs s) ((block s (anderson_coeffs s))[0 := 1]) s)"
  using assms by (simp add: calculate_anderson_coeffs_def)

lemma calculate_anderson_coeffs_dense:
  assumes k: "3 \<le> sint (num_last_vectors_used s)"
      and c: "coeffs_allocated s"
  shows "calculate_anderson_coeffs env s =
           (case ludcmp env (anderson_mat s (capacity s - 2)) (capacity s - 2) of
              None \<Rightarrow> (Throws SingularMatrix, record_call Ludcmp s)
            | Some (lu, perm) \<Rightarrow>
                (let x = map (lubksb env lu (capacity s - 2) perm
                                (anderson_rhs s (capacity s - 2))) [0..<capacity s - 2]
                 in (Returns (),
                     store_block (anderson_coeffs s) (x @ [round_double (1 - accumulated x)])
                       (record_call Lubksb (record_call Ludcmp s)))))"
proof -
  define n where "n = capacity s - 2"
  have n: "nat (sint (num_last_vectors_used s) - 2) = n"
    using k by (simp add: n_def capacity_def)
  have ne: "num_last_vectors_used s \<noteq> 2"
    using k by (simp add: sint_two_iff)
  obtain c0 where c0: "heap s (anderson_coeffs s) = Some c0" "length c0 = Suc n"
    using c k by (auto simp: coeffs_allocated_def n_def capacity_def split: option.splits)
  show ?thesis
  proof (cases "ludcmp env (anderson_mat s n) n")
    case None
    then show ?thesis
      using ne n by (simp add: calculate_anderson_coeffs_def Let_def n_def)
  next
    case (Some a)
    obtain lu perm where a: "a = (lu, perm)" by (cases a)
    define x where "x = map (lubksb env lu n perm (anderson_rhs s n)) [0..<n]"
    have lx: "length x = n" by (simp add: x_def)
    have "fold (\<lambda>i (cs, sum). (cs[i := x ! i], round_double (sum + x ! i))) [0..<n] (c0, 0)
            = (take n x @ drop n c0, foldl (\<lambda>sum x. round_double (sum + x)) 0 (take n x))"
      using lx c0 by (intro fold_copy_sum) simp_all
    then have "fold (\<lambda>i (cs, sum). (cs[i := x ! i], round_double (sum + x ! i))) [0..<n] (c0, 0)
            = (take n x @ drop n c0, accumulated x)"
      using lx by (simp add: accumulated_def)
    moreover have "drop n c0 = [c0 ! n]"
      using c0 by (simp add: Cons_nth_drop_Suc [symmetric])
    then have "(take n x @ drop n c0)[n := round_double (1 - accumulated x)]
                 = x @ [round_double (1 - accumulated x)]"
      using lx by (simp add: list_update_append)
    ultimately show ?thesis
      using ne n Some a lx c0 unfolding n_def [symmetric]
      by (simp add: calculate_anderson_coeffs_def Let_def x_def [symmetric] block_def
          record_call_def)
  qed
qed

lemma residual_spec:
  assumes "i + 1 < length (previous_vectors s)"
  shows "residual s i c = spec_residual (history s) i c"
  using assms by (simp add: residual_def spec_residual_def pv_def history_def)

lemma anderson_rhs_spec:
  assumes "n + 1 < length (previous_vectors s)"
  shows "anderson_rhs s n = spec_rhs (history s) n (dimension s)"
  using assms
  by (simp add: anderson_rhs_def spec_rhs_def foldl_add_sum residual_spec
      atLeast0LessThan)

lemma anderson_mat_spec:
  assumes "n + 1 < length (previous_vectors s)"
  shows "anderson_mat s n = spec_matrix (history s) n (dimension s)"
  using assms
  by (simp add: anderson_mat_def spec_matrix_def foldl_add_sum residual_spec
      atLeast0LessThan)

lemmas scenario_simps =
  plain_def scenario_def two_stored_def three_stored_def damped_pair_def new_solver_def
  init_picard_def use_Anderson_acceleration_def set_anderson_beta_def
  set_num_last_vector_used_def

lemmas anderson_simps =
  calculate_anderson_coeffs_def anderson_mat_def anderson_rhs_def residual_def pv_def
  block_def store_block_def record_call_def capacity_def coeffs_allocated_def
  rows_allocated_def history_def Let_def upt_conv_Cons round_double_values

section \<open>The mixing coefficients\<close>

text \<open>
  C1.  For every history capacity k of at least two, a coefficient set that
  \<^verbatim>\<open>calculate_anderson_coeffs\<close> returns consists of the k - 2 values of the dense solve
  followed by the rounded difference of one and their accumulated sum (the single
  coefficient one when k is two).  In \<^verbatim>\<open>double\<close> arithmetic these coefficients sum to one
  up to rounding, not exactly: their sum differs from one by at most
  2^-53 * (1 + (k - 1) * (1 + 2^-53)^(k - 2) * S), where S is the sum of the magnitudes of
  the k - 2 values of the dense solve.  The sum is exactly one when k is two.
\<close>

theorem anderson_coeffs_sum_near_one:
  assumes "2 \<le> sint (num_last_vectors_used s)"
      and "coeffs_allocated s"
      and "calculate_anderson_coeffs env s = (Returns (), s')"
  shows "\<exists>x. length x = capacity s - 2
             \<and> block s' (anderson_coeffs s') = x @ [round_double (1 - accumulated x)]
             \<and> \<bar>sum_list (block s' (anderson_coeffs s')) - 1\<bar>
                 \<le> (1 + real (capacity s - 1) * (1 + 1 / 2 ^ 53) ^ (capacity s - 2)
                          * (\<Sum>y\<leftarrow>x. \<bar>y\<bar>)) * (1 / 2 ^ 53)
             \<and> (capacity s = 2 \<longrightarrow> block s' (anderson_coeffs s') = [1])
             \<and> (capacity s \<noteq> 2 \<longrightarrow>
                  (\<exists>lu perm.
                     ludcmp env (anderson_mat s (capacity s - 2)) (capacity s - 2)
                       = Some (lu, perm)
                     \<and> x = map (lubksb env lu (capacity s - 2) perm
                                  (anderson_rhs s (capacity s - 2)))
                             [0..<capacity s - 2]))"
proof (cases "num_last_vectors_used s = 2")
  case True
  then have cap: "capacity s = 2" by (simp add: capacity_def)
  obtain c0 where c0: "heap s (anderson_coeffs s) = Some c0" "length c0 = 1"
    using assms(2) cap by (auto simp: coeffs_allocated_def split: option.splits)
  then obtain y where "c0 = [y]"
    by (cases c0) simp_all
  with True assms(3) c0 have b: "block s' (anderson_coeffs s') = [1]"
    by (auto simp: calculate_anderson_coeffs_two store_block_def block_def)
  have "length ([] :: real list) = capacity s - 2
        \<and> block s' (anderson_coeffs s') = [] @ [round_double (1 - accumulated [])]
        \<and> \<bar>sum_list (block s' (anderson_coeffs s')) - 1\<bar>
            \<le> (1 + real (capacity s - 1) * (1 + 1 / 2 ^ 53) ^ (capacity s - 2)
                     * (\<Sum>y\<leftarrow>[]. \<bar>y\<bar>)) * (1 / 2 ^ 53)"
    by (simp add: b cap accumulated_def round_double_values)
  with b cap show ?thesis by blast
next
  case False
  then have k: "3 \<le> sint (num_last_vectors_used s)"
    using assms(1) by (simp add: sint_two_iff)
  then have cap: "capacity s \<noteq> 2" "Suc (capacity s - 2) = capacity s - 1"
    by (simp_all add: capacity_def)
  show ?thesis
  proof (cases "ludcmp env (anderson_mat s (capacity s - 2)) (capacity s - 2)")
    case None
    with assms(3) show ?thesis
      by (simp add: calculate_anderson_coeffs_dense [OF k assms(2)])
  next
    case (Some a)
    obtain lu perm where a: "a = (lu, perm)" by (cases a)
    define x where "x = map (lubksb env lu (capacity s - 2) perm
                               (anderson_rhs s (capacity s - 2))) [0..<capacity s - 2]"
    have lx: "length x = capacity s - 2"
      by (simp add: x_def)
    have b: "block s' (anderson_coeffs s') = x @ [round_double (1 - accumulated x)]"
      using assms(3) Some a
      by (auto simp: calculate_anderson_coeffs_dense [OF k assms(2)] Let_def store_block_def
          block_def record_call_def x_def)
    have "\<bar>sum_list (block s' (anderson_coeffs s')) - 1\<bar>
            \<le> (1 + real (capacity s - 1) * (1 + 1 / 2 ^ 53) ^ (capacity s - 2)
                     * (\<Sum>y\<leftarrow>x. \<bar>y\<bar>)) * (1 / 2 ^ 53)"
      using coefficients_near_one [of x] unfolding b lx Suc_eq_plus1 [symmetric] cap(2) .
    with lx b cap(1) Some a x_def show ?thesis
      by blast
  qed
qed

theorem anderson_coeffs_sum_near_one_witness:
  "2 \<le> sint (num_last_vectors_used three_stored)
   \<and> coeffs_allocated three_stored
   \<and> capacity three_stored = 3
   \<and> block (snd (calculate_anderson_coeffs plain three_stored))
        (anderson_coeffs (snd (calculate_anderson_coeffs plain three_stored))) = [- 1, 2]
   \<and> \<bar>sum_list (block (snd (calculate_anderson_coeffs plain three_stored))
          (anderson_coeffs (snd (calculate_anderson_coeffs plain three_stored)))) - 1\<bar>
       \<le> (1 + 2 * (1 + 1 / 2 ^ 53)) * (1 / 2 ^ 53)
   \<and> (\<exists>lu perm.
         ludcmp plain (anderson_mat three_stored 1) 1 = Some (lu, perm)
         \<and> [- 1] = map (lubksb plain lu 1 perm (anderson_rhs three_stored 1)) [0..<1])
   \<and> 2 \<le> sint (num_last_vectors_used damped_pair)
   \<and> coeffs_allocated damped_pair
   \<and> capacity damped_pair = 2
   \<and> block (snd (calculate_anderson_coeffs plain damped_pair))
        (anderson_coeffs (snd (calculate_anderson_coeffs plain damped_pair))) = [1]"
proof -
  have k: "2 \<le> sint (num_last_vectors_used three_stored)"
    and k2: "2 \<le> sint (num_last_vectors_used damped_pair)"
    by (simp_all add: scenario_simps)
  have c: "coeffs_allocated three_stored" and c2: "coeffs_allocated damped_pair"
    by (simp_all add: scenario_simps anderson_simps)
  have cap: "capacity three_stored = 3" and cap2: "capacity damped_pair = 2"
    by (simp_all add: scenario_simps anderson_simps)
  have r: "calculate_anderson_coeffs plain three_stored
             = (Returns (), snd (calculate_anderson_coeffs plain three_stored))"
    and r2: "calculate_anderson_coeffs plain damped_pair
             = (Returns (), snd (calculate_anderson_coeffs plain damped_pair))"
    by (simp_all add: scenario_simps anderson_simps)
  have v: "block (snd (calculate_anderson_coeffs plain three_stored))
             (anderson_coeffs (snd (calculate_anderson_coeffs plain three_stored))) = [- 1, 2]"
    by (simp add: scenario_simps anderson_simps)
  from anderson_coeffs_sum_near_one [OF k c r] obtain x where
    x: "[- 1, 2] = x @ [round_double (1 - accumulated x)]"
    and b: "\<bar>sum_list (block (snd (calculate_anderson_coeffs plain three_stored))
               (anderson_coeffs (snd (calculate_anderson_coeffs plain three_stored)))) - 1\<bar>
            \<le> (1 + real (capacity three_stored - 1) * (1 + 1 / 2 ^ 53) ^ (capacity three_stored - 2)
                     * (\<Sum>y\<leftarrow>x. \<bar>y\<bar>)) * (1 / 2 ^ 53)"
    and d: "capacity three_stored \<noteq> 2 \<longrightarrow>
              (\<exists>lu perm.
                 ludcmp plain (anderson_mat three_stored (capacity three_stored - 2))
                   (capacity three_stored - 2) = Some (lu, perm)
                 \<and> x = map (lubksb plain lu (capacity three_stored - 2) perm
                              (anderson_rhs three_stored (capacity three_stored - 2)))
                         [0..<capacity three_stored - 2])"
    unfolding v by blast
  from x have x1: "x = [- 1]"
    by (cases x rule: rev_cases) auto
  from d have "\<exists>lu perm.
         ludcmp plain (anderson_mat three_stored 1) 1 = Some (lu, perm)
         \<and> [- 1] = map (lubksb plain lu 1 perm (anderson_rhs three_stored 1)) [0..<1]"
    unfolding x1 cap by simp
  moreover from b x1 have "\<bar>sum_list (block (snd (calculate_anderson_coeffs plain three_stored))
               (anderson_coeffs (snd (calculate_anderson_coeffs plain three_stored)))) - 1\<bar>
            \<le> (1 + 2 * (1 + 1 / 2 ^ 53)) * (1 / 2 ^ 53)"
    by (simp add: cap)
  moreover from anderson_coeffs_sum_near_one [OF k2 c2 r2] cap2
  have "block (snd (calculate_anderson_coeffs plain damped_pair))
          (anderson_coeffs (snd (calculate_anderson_coeffs plain damped_pair))) = [1]"
    by blast
  ultimately show ?thesis
    using k c cap v k2 c2 cap2 by blast
qed

theorem anderson_coeffs_sum_counterexample:
  "2 \<le> sint (num_last_vectors_used uneven_steps)
   \<and> coeffs_allocated uneven_steps
   \<and> history uneven_steps = [[0], [5], [7]]
   \<and> fst (calculate_anderson_coeffs double_division uneven_steps) = Returns ()
   \<and> block (snd (calculate_anderson_coeffs double_division uneven_steps))
        (anderson_coeffs (snd (calculate_anderson_coeffs double_division uneven_steps)))
       = [- (6004799503160661 / 2 ^ 53), 7505999378950826 / 2 ^ 52]
   \<and> sum_list (block (snd (calculate_anderson_coeffs double_division uneven_steps))
        (anderson_coeffs (snd (calculate_anderson_coeffs double_division uneven_steps))))
       = 1 - 1 / 2 ^ 53
   \<and> sum_list (block (snd (calculate_anderson_coeffs double_division uneven_steps))
        (anderson_coeffs (snd (calculate_anderson_coeffs double_division uneven_steps))))
       \<noteq> 1"
proof -
  have k: "2 \<le> sint (num_last_vectors_used uneven_steps)"
    by (simp add: uneven_steps_def scenario_simps)
  have c: "coeffs_allocated uneven_steps"
    by (simp add: uneven_steps_def scenario_simps anderson_simps)
  have h: "history uneven_steps = [[0], [5], [7]]"
    by (simp add: uneven_steps_def scenario_simps anderson_simps)
  have r: "fst (calculate_anderson_coeffs double_division uneven_steps) = Returns ()"
    by (simp add: uneven_steps_def double_division_def scenario_simps anderson_simps)
  have "block (snd (calculate_anderson_coeffs double_division uneven_steps))
          (anderson_coeffs (snd (calculate_anderson_coeffs double_division uneven_steps)))
        = [round_double (- (2 / 3)),
           round_double (1 - round_double (round_double (- (2 / 3))))]"
    by (simp add: uneven_steps_def double_division_def scenario_simps anderson_simps)
  then have v: "block (snd (calculate_anderson_coeffs double_division uneven_steps))
          (anderson_coeffs (snd (calculate_anderson_coeffs double_division uneven_steps)))
        = [- (6004799503160661 / 2 ^ 53), 7505999378950826 / 2 ^ 52]"
    by (simp only: round_double_two_thirds round_double_first_coefficient
        round_double_last_coefficient)
  have s: "sum_list [- (6004799503160661 / 2 ^ 53), 7505999378950826 / 2 ^ 52 :: real] = 1 - 1 / 2 ^ 53"
    by simp
  have n: "(1 :: real) - 1 / 2 ^ 53 \<noteq> 1"
    by simp
  from k c h r v s n show ?thesis
    by (simp only: simp_thms)
qed

text \<open>
  C3.  For every history capacity k of at least three, with n = k - 2: the matrix and the
  right-hand side that \<^verbatim>\<open>calculate_anderson_coeffs\<close> hands to the dense helpers are those
  of the specification, built from the differences of consecutive history entries, and the
  first n coefficients are what \<^verbatim>\<open>ludcmp\<close> followed by \<^verbatim>\<open>lubksb\<close> return for them; they
  solve the system whenever the result of the helpers does.
\<close>

theorem anderson_coeffs_from_dense_system:
  assumes "3 \<le> sint (num_last_vectors_used s)"
      and "coeffs_allocated s"
      and "length (previous_vectors s) = capacity s"
      and "calculate_anderson_coeffs env s = (Returns (), s')"
  shows "\<exists>lu perm x.
           ludcmp env (spec_matrix (history s) (capacity s - 2) (dimension s)) (capacity s - 2)
             = Some (lu, perm)
           \<and> x = map (lubksb env lu (capacity s - 2) perm
                        (spec_rhs (history s) (capacity s - 2) (dimension s)))
                   [0..<capacity s - 2]
           \<and> take (capacity s - 2) (block s' (anderson_coeffs s')) = x
           \<and> (solves_system (spec_matrix (history s) (capacity s - 2) (dimension s))
                 (spec_rhs (history s) (capacity s - 2) (dimension s)) x
                \<longrightarrow> solves_system (spec_matrix (history s) (capacity s - 2) (dimension s))
                      (spec_rhs (history s) (capacity s - 2) (dimension s))
                      (take (capacity s - 2) (block s' (anderson_coeffs s'))))"
proof -
  define n where "n = capacity s - 2"
  have "2 \<le> capacity s"
    using assms(1) by (simp add: capacity_def)
  then have n: "n + 1 < length (previous_vectors s)"
    using assms(3) by (simp add: n_def)
  note spec = anderson_mat_spec [OF n] anderson_rhs_spec [OF n]
  show ?thesis
  proof (cases "ludcmp env (anderson_mat s n) n")
    case None
    with assms(4) show ?thesis
      by (simp add: calculate_anderson_coeffs_dense [OF assms(1,2)] n_def)
  next
    case (Some a)
    then show ?thesis
      using assms(4) spec unfolding n_def
      by (cases a)
         (auto simp: calculate_anderson_coeffs_dense [OF assms(1,2)] Let_def store_block_def
            block_def record_call_def)
  qed
qed

theorem anderson_coeffs_from_dense_system_witness:
  "3 \<le> sint (num_last_vectors_used three_stored)
   \<and> coeffs_allocated three_stored
   \<and> length (previous_vectors three_stored) = capacity three_stored
   \<and> spec_matrix (history three_stored) 1 1 = [[25 / 4]]
   \<and> spec_rhs (history three_stored) 1 1 = [- (25 / 4)]
   \<and> solves_system (spec_matrix (history three_stored) 1 1)
        (spec_rhs (history three_stored) 1 1)
        (take 1 (block (snd (calculate_anderson_coeffs plain three_stored))
           (anderson_coeffs (snd (calculate_anderson_coeffs plain three_stored)))))"
proof -
  have k: "3 \<le> sint (num_last_vectors_used three_stored)"
    by (simp add: scenario_simps)
  have c: "coeffs_allocated three_stored"
    by (simp add: scenario_simps anderson_simps)
  have l: "length (previous_vectors three_stored) = capacity three_stored"
    by (simp add: scenario_simps anderson_simps)
  have r: "calculate_anderson_coeffs plain three_stored
             = (Returns (), snd (calculate_anderson_coeffs plain three_stored))"
    by (simp add: scenario_simps anderson_simps)
  have cap: "capacity three_stored - 2 = 1" "dimension three_stored = 1"
    by (simp_all add: scenario_simps anderson_simps)
  have m: "spec_matrix (history three_stored) 1 1 = [[25 / 4]]"
    by (simp add: scenario_simps anderson_simps spec_matrix_def spec_residual_def)
  have b: "spec_rhs (history three_stored) 1 1 = [- (25 / 4)]"
    by (simp add: scenario_simps anderson_simps spec_rhs_def spec_residual_def)
  have lu: "ludcmp plain [[25 / 4]] (Suc 0) = Some ([[25 / 4]], [0])"
    by (simp add: scenario_simps)
  have x: "lubksb plain [[25 / 4]] (Suc 0) [0] [- (25 / 4)] 0 = - 1"
    by (simp add: scenario_simps)
  have s: "solves_system [[25 / 4]] [- (25 / 4)] [- 1]"
    by (simp add: solves_system_def)
  from anderson_coeffs_from_dense_system [OF k c l r] s
  have "solves_system (spec_matrix (history three_stored) 1 1)
          (spec_rhs (history three_stored) 1 1)
          (take 1 (block (snd (calculate_anderson_coeffs plain three_stored))
             (anderson_coeffs (snd (calculate_anderson_coeffs plain three_stored)))))"
    unfolding cap m b by (auto simp: lu x)
  with k c l m b show ?thesis by blast
qed

section \<open>The validity check\<close>

text \<open>
  C7.  With a configured capacity below two, \<^verbatim>\<open>solve\<close> fails in the validity check at
  the start of \<^verbatim>\<open>init_solving\<close> and leaves the solver as it was: nothing is allocated, no
  call is recorded, no iteration or linear solve has taken place.  With a capacity of at
  least two the capacity test of \<^verbatim>\<open>isOkay\<close> passes and the answer is the one of the base
  class.
\<close>

theorem capacity_check:
  "(sint (num_last_vectors_used s) < 2
      \<longrightarrow> solve env coeff_vec s = Some (Throws BadNumLastVectors, s))
   \<and> (2 \<le> sint (num_last_vectors_used s)
      \<longrightarrow> isOkay env s = Returns (NonlinearMatrixSolver_isOkay env)
        \<and> (NonlinearMatrixSolver_isOkay env \<longrightarrow> check env s = Returns ()))"
  by (simp add: solve_def solve_entry_def init_solving_def check_def isOkay_def)

theorem capacity_check_witness:
  "sint (num_last_vectors_used (set_num_last_vector_used 1 new_solver)) < 2
   \<and> solve plain None (set_num_last_vector_used 1 new_solver)
       = Some (Throws BadNumLastVectors, set_num_last_vector_used 1 new_solver)
   \<and> 2 \<le> sint (num_last_vectors_used (set_num_last_vector_used 2 new_solver))
   \<and> NonlinearMatrixSolver_isOkay plain
   \<and> isOkay plain (set_num_last_vector_used 2 new_solver) = Returns True
   \<and> check plain (set_num_last_vector_used 2 new_solver) = Returns ()"
proof -
  have a: "sint (num_last_vectors_used (set_num_last_vector_used 1 new_solver)) < 2"
    by (simp add: scenario_simps)
  have b: "2 \<le> sint (num_last_vectors_used (set_num_last_vector_used 2 new_solver))"
    by (simp add: scenario_simps)
  have c: "NonlinearMatrixSolver_isOkay plain"
    by (simp add: scenario_simps)
  from capacity_check [of "set_num_last_vector_used 1 new_solver" plain None]
       capacity_check [of "set_num_last_vector_used 2 new_solver" plain None] a b c
  show ?thesis by simp
qed

section \<open>The vector history\<close>

subsection \<open>Storing a vector in the history\<close>

lemma memcpy_whole:
  assumes "length src = n" and "length dst = n"
  shows "memcpy dst ((!) src) n = src"
  using assms map_nth [of src] by (auto simp: memcpy_def)

lemma fold_shift:
  assumes "n < length p"
  shows "fold (\<lambda>i p. p[i := p ! (i + 1)]) [0..<n] p = take n (tl p) @ drop n p"
  using assms
proof (induction n)
  case 0
  then show ?case by simp
next
  case (Suc n)
  then have n: "n < length p" "Suc n < length p" by simp_all
  have d: "drop n p = p ! n # drop (Suc n) p"
    using n by (simp add: Cons_nth_drop_Suc)
  have e: "drop (Suc n) p = p ! Suc n # drop (Suc (Suc n)) p"
    using n by (simp add: Cons_nth_drop_Suc)
  have t: "take (Suc n) (tl p) = take n (tl p) @ [p ! Suc n]"
    using n by (simp add: take_Suc_conv_app_nth nth_tl)
  have l: "length (take n (tl p)) = n"
    using n by simp
  from Suc.IH n have "fold (\<lambda>i p. p[i := p ! (i + 1)]) [0..<Suc n] p
      = (take n (tl p) @ drop n p)[n := (take n (tl p) @ drop n p) ! Suc n]"
    by simp
  also have "\<dots> = take n (tl p) @ (p ! Suc n # drop (Suc n) p)"
    using l by (simp add: list_update_append nth_append d e)
  also have "\<dots> = take (Suc n) (tl p) @ drop (Suc n) p"
    by (simp add: t)
  finally show ?case .
qed

lemma fold_shift_rotate:
  assumes "p \<noteq> []"
  shows "(fold (\<lambda>i p. p[i := p ! (i + 1)]) [0..<length p - 1] p)[length p - 1 := p ! 0]
           = tl p @ [hd p]"
proof -
  obtain a q where p: "p = a # q" using assms by (cases p) auto
  have "fold (\<lambda>i p. p[i := p ! (i + 1)]) [0..<length p - 1] p
          = take (length p - 1) (tl p) @ drop (length p - 1) p"
    using assms by (intro fold_shift) simp
  also have "\<dots> = q @ drop (length q) (a # q)"
    by (simp add: p)
  finally show ?thesis
    by (cases q rule: rev_cases) (simp_all add: p list_update_append)
qed

lemma history_ready_bounds:
  assumes "history_ready s"
  shows "1 \<le> unat (vec_in_memory s)"
    and "unat (vec_in_memory s) \<le> capacity s"
    and "2 \<le> capacity s"
    and "unat (num_last_vectors_used s) = capacity s"
proof -
  have k: "2 \<le> sint (num_last_vectors_used s)"
    using assms by (simp add: history_ready_def)
  then show c: "unat (num_last_vectors_used s) = capacity s"
    by (rule capacity_unat)
  show "2 \<le> capacity s"
    using k by (simp add: capacity_def)
  have "unat (1 :: 32 word) \<le> unat (vec_in_memory s)"
    using assms by (simp only: history_ready_def word_le_nat_alt)
  then show "1 \<le> unat (vec_in_memory s)" by simp
  have "unat (vec_in_memory s) \<le> unat (num_last_vectors_used s)"
    using assms by (simp only: history_ready_def word_le_nat_alt)
  then show "unat (vec_in_memory s) \<le> capacity s"
    by (simp add: c)
qed

lemma history_full_iff:
  assumes "history_ready s"
  shows "history_full s \<longleftrightarrow> unat (vec_in_memory s) = capacity s"
  using history_ready_bounds [OF assms]
  by (auto simp: history_full_def word_le_nat_alt)

lemma rows_allocatedD:
  assumes "rows_allocated s" and "a \<in> set (previous_vectors s)"
  shows "\<exists>v. heap s a = Some v \<and> length v = dimension s"
  using assms by (auto simp: rows_allocated_def list_all_iff split: option.splits)

lemma store_new_vector_not_full:
  assumes r: "history_ready s" and f: "\<not> history_full s"
  shows "store_new_vector s =
           s\<lparr>heap := (heap s)(previous_vectors s ! unat (vec_in_memory s) \<mapsto> sln_vector s),
             vec_in_memory := vec_in_memory s + 1\<rparr>"
proof -
  note b = history_ready_bounds [OF r]
  have lt: "vec_in_memory s < num_last_vectors_used s"
    using f by (simp add: history_full_def)
  then have m: "unat (vec_in_memory s) < capacity s"
    using b by (simp add: word_less_nat_alt)
  then have "previous_vectors s ! unat (vec_in_memory s) \<in> set (previous_vectors s)"
    using r by (simp add: history_ready_def)
  then obtain v where v: "heap s (previous_vectors s ! unat (vec_in_memory s)) = Some v"
      "length v = dimension s"
    using r rows_allocatedD by (auto simp: history_ready_def)
  have "memcpy v ((!) (sln_vector s)) (dimension s) = sln_vector s"
    using r v by (intro memcpy_whole) (simp_all add: history_ready_def)
  then show ?thesis
    using lt v by (simp add: store_new_vector_def store_block_def block_def)
qed

lemma store_new_vector_full:
  assumes r: "history_ready s" and f: "history_full s"
  shows "store_new_vector s =
           s\<lparr>previous_vectors := tl (previous_vectors s) @ [hd (previous_vectors s)],
             heap := (heap s)(hd (previous_vectors s) \<mapsto> sln_vector s)\<rparr>"
proof -
  note b = history_ready_bounds [OF r]
  have nlt: "\<not> vec_in_memory s < num_last_vectors_used s"
    using f by (simp add: history_full_def)
  have len: "length (previous_vectors s) = capacity s"
    using r by (simp add: history_ready_def)
  then have ne: "previous_vectors s \<noteq> []"
    using b by auto
  then have hd: "previous_vectors s ! 0 = hd (previous_vectors s)"
    by (simp add: hd_conv_nth)
  have k1: "nat (sint (num_last_vectors_used s) - 1) = length (previous_vectors s) - 1"
    using len b by (simp add: capacity_def)
  have "hd (previous_vectors s) \<in> set (previous_vectors s)"
    using ne by simp
  then obtain v where v: "heap s (hd (previous_vectors s)) = Some v" "length v = dimension s"
    using r rows_allocatedD by (auto simp: history_ready_def)
  have "memcpy v ((!) (sln_vector s)) (dimension s) = sln_vector s"
    using r v by (intro memcpy_whole) (simp_all add: history_ready_def)
  then show ?thesis
    using nlt v fold_shift_rotate [OF ne]
    by (simp add: store_new_vector_def store_block_def block_def Let_def k1 hd)
qed

lemma history_store_not_full:
  assumes r: "history_ready s" and f: "\<not> history_full s"
  shows "history (store_new_vector s) = (history s)[unat (vec_in_memory s) := sln_vector s]"
proof -
  have d: "distinct (previous_vectors s)"
    using r by (simp add: history_ready_def)
  have m: "unat (vec_in_memory s) < length (previous_vectors s)"
    using history_ready_bounds [OF r] history_full_iff [OF r] f r
    by (simp add: history_ready_def)
  show ?thesis
    using d m
    by (auto simp: store_new_vector_not_full [OF r f] history_def block_def
        nth_list_update nth_eq_iff_index_eq intro!: nth_equalityI)
qed

lemma history_store_full:
  assumes r: "history_ready s" and f: "history_full s"
  shows "history (store_new_vector s) = tl (history s) @ [sln_vector s]"
proof -
  obtain a q where p: "previous_vectors s = a # q"
    using r history_ready_bounds [OF r]
    by (cases "previous_vectors s") (auto simp: history_ready_def)
  have "a \<notin> set q"
    using r by (simp add: history_ready_def p)
  then show ?thesis
    by (simp add: store_new_vector_full [OF r f] history_def block_def p)
qed

lemma history_ready_store:
  assumes r: "history_ready s"
  shows "history_ready (store_new_vector s)"
proof (cases "history_full s")
  case True
  obtain a q where p: "previous_vectors s = a # q"
    using r history_ready_bounds [OF r]
    by (cases "previous_vectors s") (auto simp: history_ready_def)
  show ?thesis
    using r unfolding store_new_vector_full [OF r True]
    by (auto simp: history_ready_def p rows_allocated_def coeffs_allocated_def capacity_def
        list_all_iff split: option.splits)
next
  case False
  note b = history_ready_bounds [OF r]
  have lt: "vec_in_memory s < num_last_vectors_used s"
    using False by (simp add: history_full_def)
  then have m: "unat (vec_in_memory s) < capacity s"
    using b by (simp add: word_less_nat_alt)
  have u: "unat (vec_in_memory s + 1) = Suc (unat (vec_in_memory s))"
    using lt by (rule unat_inc_below)
  have le: "vec_in_memory s + 1 \<le> num_last_vectors_used s"
    using m b u by (simp add: word_le_nat_alt)
  have ge: "1 \<le> vec_in_memory s + 1"
    using u by (simp add: word_le_nat_alt)
  have i: "previous_vectors s ! unat (vec_in_memory s) \<in> set (previous_vectors s)"
    using m r by (simp add: history_ready_def)
  show ?thesis
    using r le ge i unfolding store_new_vector_not_full [OF r False]
    by (auto simp: history_ready_def rows_allocated_def coeffs_allocated_def capacity_def
        list_all_iff split: option.splits)
qed

subsection \<open>Sequences of pushes\<close>

lemma history_ready_sln:
  assumes "history_ready s" and "length v = dimension s"
  shows "history_ready (s\<lparr>sln_vector := v\<rparr>)"
  using assms
  by (auto simp: history_ready_def rows_allocated_def coeffs_allocated_def capacity_def
      list_all_iff split: option.splits)

lemma store_new_vector_frame:
  assumes r: "history_ready s"
  shows "num_last_vectors_used (store_new_vector s) = num_last_vectors_used s"
    and "dimension (store_new_vector s) = dimension s"
    and "sln_vector (store_new_vector s) = sln_vector s"
    and "anderson_beta (store_new_vector s) = anderson_beta s"
    and "anderson_is_on (store_new_vector s) = anderson_is_on s"
    and "anderson_coeffs (store_new_vector s) = anderson_coeffs s"
    and "calls (store_new_vector s) = calls s"
    and "capacity (store_new_vector s) = capacity s"
  by (cases "history_full s";
      simp add: store_new_vector_full [OF r] store_new_vector_not_full [OF r] capacity_def)+

lemma length_history:
  assumes "history_ready s"
  shows "length (history s) = capacity s"
  using assms by (simp add: history_ready_def history_def)

lemma vec_in_memory_store:
  assumes r: "history_ready s"
  shows "unat (vec_in_memory (store_new_vector s))
           = min (capacity s) (Suc (unat (vec_in_memory s)))"
proof (cases "history_full s")
  case True
  then show ?thesis
    using history_full_iff [OF r] by (simp add: store_new_vector_full [OF r True])
next
  case False
  then have "vec_in_memory s < num_last_vectors_used s"
    by (simp add: history_full_def)
  then have "unat (vec_in_memory s + 1) = Suc (unat (vec_in_memory s))"
    by (rule unat_inc_below)
  then show ?thesis
    using False history_full_iff [OF r] history_ready_bounds [OF r]
    by (simp add: store_new_vector_not_full [OF r False])
qed

lemma window_store:
  assumes r: "history_ready s"
  shows "window (store_new_vector s)
           = drop (Suc (unat (vec_in_memory s)) - capacity s) (window s @ [sln_vector s])"
proof (cases "history_full s")
  case True
  then have m: "unat (vec_in_memory s) = capacity s"
    using history_full_iff [OF r] by simp
  have l: "length (history s) = capacity s"
    by (rule length_history [OF r])
  have k: "2 \<le> capacity s"
    by (rule history_ready_bounds [OF r])
  then have ne: "history s \<noteq> []"
    using l by auto
  show ?thesis
    using l ne m k vec_in_memory_store [OF r]
    by (simp add: window_def history_store_full [OF r True] drop_Suc)
next
  case False
  then have m: "unat (vec_in_memory s) < capacity s"
    using history_full_iff [OF r] history_ready_bounds [OF r] by simp
  have l: "length (history s) = capacity s"
    by (rule length_history [OF r])
  show ?thesis
    using l m vec_in_memory_store [OF r]
    by (simp add: window_def history_store_not_full [OF r False] take_Suc_conv_app_nth
        upd_conv_take_nth_drop)
qed

lemma push_ready:
  assumes "history_ready s" and "length v = dimension s"
  shows "history_ready (push v s)"
    and "dimension (push v s) = dimension s"
    and "capacity (push v s) = capacity s"
    and "unat (vec_in_memory (push v s)) = min (capacity s) (Suc (unat (vec_in_memory s)))"
    and "window (push v s) = drop (Suc (unat (vec_in_memory s)) - capacity s) (window s @ [v])"
proof -
  note r = history_ready_sln [OF assms]
  show "history_ready (push v s)"
    unfolding push_def by (rule history_ready_store [OF r])
  show "dimension (push v s) = dimension s"
    by (simp add: push_def store_new_vector_frame [OF r])
  show "capacity (push v s) = capacity s"
    by (simp add: push_def store_new_vector_frame [OF r] capacity_def)
  show "unat (vec_in_memory (push v s)) = min (capacity s) (Suc (unat (vec_in_memory s)))"
    using vec_in_memory_store [OF r] by (simp add: push_def capacity_def)
  have "block (s\<lparr>sln_vector := v\<rparr>) = block s"
    by (rule ext) (simp add: block_def)
  then have "window (s\<lparr>sln_vector := v\<rparr>) = window s"
    by (simp add: window_def history_def)
  moreover have "capacity (s\<lparr>sln_vector := v\<rparr>) = capacity s"
    by (simp add: capacity_def)
  ultimately show
    "window (push v s) = drop (Suc (unat (vec_in_memory s)) - capacity s) (window s @ [v])"
    using window_store [OF r] by (simp add: push_def)
qed

lemma push_all_window:
  assumes "history_ready s" and "\<forall>v \<in> set vs. length v = dimension s"
  shows "history_ready (push_all vs s)
         \<and> capacity (push_all vs s) = capacity s
         \<and> dimension (push_all vs s) = dimension s
         \<and> unat (vec_in_memory (push_all vs s))
             = min (capacity s) (unat (vec_in_memory s) + length vs)
         \<and> window (push_all vs s)
             = drop (unat (vec_in_memory s) + length vs - capacity s) (window s @ vs)"
  using assms
proof (induction vs arbitrary: s)
  case Nil
  then show ?case
    using history_ready_bounds [OF Nil(1)] by (simp add: push_all_def)
next
  case (Cons v vs)
  then have v: "length v = dimension s" by simp
  note p = push_ready [OF Cons.prems(1) v]
  have "\<forall>u \<in> set vs. length u = dimension (push v s)"
    using Cons.prems(2) p(2) by simp
  note ih = Cons.IH [OF p(1) this]
  note b = history_ready_bounds [OF Cons.prems(1)]
  have w: "length (window s) = unat (vec_in_memory s)"
    using b length_history [OF Cons.prems(1)] by (simp add: window_def)
  have "window (push_all (v # vs) s)
          = drop (min (capacity s) (Suc (unat (vec_in_memory s))) + length vs - capacity s)
              (drop (Suc (unat (vec_in_memory s)) - capacity s) (window s @ [v]) @ vs)"
    using ih p by (simp add: push_all_def)
  also have "\<dots> = drop (unat (vec_in_memory s) + length (v # vs) - capacity s)
                     (window s @ v # vs)"
  proof (cases "unat (vec_in_memory s) < capacity s")
    case True
    then have "min (capacity s) (Suc (unat (vec_in_memory s))) = Suc (unat (vec_in_memory s))"
      and "Suc (unat (vec_in_memory s)) - capacity s = 0"
      by simp_all
    then show ?thesis by simp
  next
    case False
    then have m: "unat (vec_in_memory s) = capacity s"
      using b by simp
    have a: "min (capacity s) (Suc (unat (vec_in_memory s))) + length vs - capacity s
               = length vs"
        "Suc (unat (vec_in_memory s)) - capacity s = Suc 0"
        "unat (vec_in_memory s) + length (v # vs) - capacity s = Suc (length vs)"
      using m by simp_all
    have e: "drop (Suc 0) (window s @ [v]) @ vs = drop (Suc 0) (window s @ v # vs)"
      using w b by (cases "window s") simp_all
    have "drop (length vs) (drop (Suc 0) (window s @ v # vs))
            = drop (Suc (length vs)) (window s @ v # vs)"
      by (simp only: drop_drop add_Suc_right add_0_right)
    then show ?thesis
      unfolding a e .
  qed
  finally show ?case
    using ih p b by (auto simp: push_all_def min_def)
qed

subsection \<open>What the coefficient computation and the mixing leave unchanged\<close>

lemma calculate_anderson_coeffs_frame:
  "snd (calculate_anderson_coeffs env s)
     = s\<lparr>heap := heap (snd (calculate_anderson_coeffs env s)),
         calls := calls (snd (calculate_anderson_coeffs env s))\<rparr>"
  by (simp add: calculate_anderson_coeffs_def Let_def store_block_def record_call_def
      split: option.splits prod.splits)

lemma calculate_anderson_coeffs_heap:
  assumes "a \<noteq> anderson_coeffs s"
  shows "heap (snd (calculate_anderson_coeffs env s)) a = heap s a"
  using assms
  by (simp add: calculate_anderson_coeffs_def Let_def store_block_def record_call_def
      split: option.splits prod.splits)

lemma calculate_anderson_coeffs_keeps:
  assumes "anderson_coeffs s \<notin> set (previous_vectors s)"
  shows "history (snd (calculate_anderson_coeffs env s)) = history s"
    and "previous_vectors (snd (calculate_anderson_coeffs env s)) = previous_vectors s"
    and "sln_vector (snd (calculate_anderson_coeffs env s)) = sln_vector s"
    and "dimension (snd (calculate_anderson_coeffs env s)) = dimension s"
    and "num_last_vectors_used (snd (calculate_anderson_coeffs env s)) = num_last_vectors_used s"
    and "vec_in_memory (snd (calculate_anderson_coeffs env s)) = vec_in_memory s"
    and "anderson_beta (snd (calculate_anderson_coeffs env s)) = anderson_beta s"
    and "anderson_is_on (snd (calculate_anderson_coeffs env s)) = anderson_is_on s"
    and "anderson_coeffs (snd (calculate_anderson_coeffs env s)) = anderson_coeffs s"
proof -
  note f = calculate_anderson_coeffs_frame [of env s]
  show p: "previous_vectors (snd (calculate_anderson_coeffs env s)) = previous_vectors s"
    by (subst f) simp
  have "block (snd (calculate_anderson_coeffs env s)) a = block s a"
    if "a \<in> set (previous_vectors s)" for a
  proof -
    from that assms have "a \<noteq> anderson_coeffs s" by auto
    then show ?thesis
      by (simp add: block_def calculate_anderson_coeffs_heap)
  qed
  then show "history (snd (calculate_anderson_coeffs env s)) = history s"
    by (simp add: history_def p)
  show "sln_vector (snd (calculate_anderson_coeffs env s)) = sln_vector s"
    by (subst f) simp
  show "dimension (snd (calculate_anderson_coeffs env s)) = dimension s"
    by (subst f) simp
  show "num_last_vectors_used (snd (calculate_anderson_coeffs env s)) = num_last_vectors_used s"
    by (subst f) simp
  show "vec_in_memory (snd (calculate_anderson_coeffs env s)) = vec_in_memory s"
    by (subst f) simp
  show "anderson_beta (snd (calculate_anderson_coeffs env s)) = anderson_beta s"
    by (subst f) simp
  show "anderson_is_on (snd (calculate_anderson_coeffs env s)) = anderson_is_on s"
    by (subst f) simp
  show "anderson_coeffs (snd (calculate_anderson_coeffs env s)) = anderson_coeffs s"
    by (subst f) simp
qed

lemma handle_previous_vectors_on:
  assumes "anderson_is_on s"
  shows "handle_previous_vectors env s =
           (if history_full (store_new_vector s) then
              (case calculate_anderson_coeffs env (store_new_vector s) of
                 (Throws e, s2) \<Rightarrow> (Throws e, s2)
               | (Returns _, s2) \<Rightarrow> (Returns (), mix_vectors s2))
            else (Returns (), store_new_vector s))"
  using assms by (simp add: handle_previous_vectors_def history_full_def Let_def)

lemma history_handle_previous_vectors:
  assumes r: "history_ready s" and on: "anderson_is_on s"
  shows "history (snd (handle_previous_vectors env s)) = history (store_new_vector s)"
proof -
  have "history_ready (store_new_vector s)"
    by (rule history_ready_store [OF r])
  then have n: "anderson_coeffs (store_new_vector s) \<notin> set (previous_vectors (store_new_vector s))"
    by (simp add: history_ready_def)
  have m: "history (mix_vectors t) = history t" for t
    by (simp add: mix_vectors_def history_def block_def)
  show ?thesis
  proof (cases "calculate_anderson_coeffs env (store_new_vector s)")
    case (Pair o' t)
    then have "history t = history (store_new_vector s)"
      using calculate_anderson_coeffs_keeps(1) [OF n, of env] by simp
    then show ?thesis
      using Pair by (cases o') (simp_all add: handle_previous_vectors_on [OF on] m)
  qed
qed

text \<open>
  C5.  A push onto a full history drops the entry at index 0, moves the others down by
  one position in their order and puts the new vector last, in the storing part of
  \<^verbatim>\<open>handle_previous_vectors\<close> and in the whole of it; pushing capacity plus one vectors in
  sequence leaves the history holding all of them but the first, in their order.
\<close>

theorem push_on_full_history:
  assumes "history_ready s"
  shows "(history_full s \<longrightarrow>
            history (store_new_vector s) = tl (history s) @ [sln_vector s]
            \<and> (anderson_is_on s \<longrightarrow>
                 history (snd (handle_previous_vectors env s)) = tl (history s) @ [sln_vector s]))
         \<and> ((\<forall>v \<in> set vs. length v = dimension s) \<and> length vs = capacity s + 1 \<longrightarrow>
              history (push_all vs s) = tl vs)"
proof (intro conjI impI)
  assume f: "history_full s"
  show "history (store_new_vector s) = tl (history s) @ [sln_vector s]"
    by (rule history_store_full [OF assms f])
  assume "anderson_is_on s"
  then show "history (snd (handle_previous_vectors env s)) = tl (history s) @ [sln_vector s]"
    by (simp add: history_handle_previous_vectors [OF assms] history_store_full [OF assms f])
next
  assume a: "(\<forall>v \<in> set vs. length v = dimension s) \<and> length vs = capacity s + 1"
  note b = history_ready_bounds [OF assms]
  from a have w: "history_ready (push_all vs s)"
      "capacity (push_all vs s) = capacity s"
      "unat (vec_in_memory (push_all vs s))
         = min (capacity s) (unat (vec_in_memory s) + length vs)"
      "window (push_all vs s)
         = drop (unat (vec_in_memory s) + length vs - capacity s) (window s @ vs)"
    using push_all_window [OF assms, of vs] by simp_all
  have l: "length (window s) = unat (vec_in_memory s)"
    using b length_history [OF assms] by (simp add: window_def)
  have "window (push_all vs s) = history (push_all vs s)"
    using w(2,3) a length_history [OF w(1)] by (simp add: window_def)
  moreover have "drop (unat (vec_in_memory s) + length vs - capacity s) (window s @ vs) = tl vs"
    using a l by (simp add: drop_Suc)
  ultimately show "history (push_all vs s) = tl vs"
    using w(4) by simp
qed

lemmas history_simps =
  history_ready_def history_full_def rows_allocated_def coeffs_allocated_def capacity_def
  history_def block_def

theorem push_on_full_history_witness:
  "history_ready three_stored \<and> history_full three_stored \<and> anderson_is_on three_stored
   \<and> list_all (\<lambda>v. length v = dimension three_stored) [[1], [2], [3], [4]]
   \<and> length [[1], [2], [3], [4 :: real]] = capacity three_stored + 1
   \<and> history three_stored = [[0], [5], [15 / 2]]
   \<and> history (store_new_vector three_stored) = [[5], [15 / 2], [35 / 4]]
   \<and> history (snd (handle_previous_vectors plain three_stored)) = [[5], [15 / 2], [35 / 4]]
   \<and> history (push_all [[1], [2], [3], [4]] three_stored) = [[2], [3], [4]]"
proof -
  have r: "history_ready three_stored"
    by (simp add: scenario_simps history_simps)
  have f: "history_full three_stored" and on: "anderson_is_on three_stored"
    by (simp_all add: scenario_simps history_simps)
  have v: "(\<forall>v \<in> set [[1], [2], [3], [4]]. length v = dimension three_stored)
           \<and> length [[1], [2], [3], [4 :: real]] = capacity three_stored + 1"
    by (simp add: scenario_simps history_simps)
  have h: "history three_stored = [[0], [5], [15 / 2]]"
      and s: "sln_vector three_stored = [35 / 4]"
    by (simp_all add: scenario_simps history_simps)
  from push_on_full_history [OF r, of plain "[[1], [2], [3], [4]]"] f on v
  show ?thesis
    using r h s by (simp add: list_all_iff)
qed

section \<open>The mixed vector\<close>

subsection \<open>The mixing loop in closed form\<close>

lemma mixed_component_spec:
  assumes "length (previous_vectors s) = capacity s" and "1 \<le> capacity s"
  shows "mixed_component s i
           = spec_mixed (history s) (block s (anderson_coeffs s)) (anderson_beta s) (capacity s) i"
proof -
  have "{1..<capacity s} = {1..capacity s - 1}"
    using assms(2) by auto
  moreover have "pv s j i = history s ! j ! i \<and> pv s (j - 1) i = history s ! (j - 1) ! i"
    if "j \<in> {1..capacity s - 1}" for j
  proof -
    from that assms have "j < length (previous_vectors s)" "j - 1 < length (previous_vectors s)"
      by auto
    then show ?thesis
      by (simp add: pv_def history_def)
  qed
  ultimately show ?thesis
    by (simp add: mixed_component_def spec_mixed_def foldl_add_sum)
qed

lemma mix_vectors_eq:
  assumes "length (sln_vector s) = dimension s"
  shows "mix_vectors s = s\<lparr>sln_vector := map (mixed_component s) [0..<dimension s]\<rparr>"
  using assms by (simp add: mix_vectors_def fold_update_map)

lemma handle_previous_vectors_full:
  assumes r: "history_ready s" and on: "anderson_is_on s"
      and f: "history_full (store_new_vector s)"
      and c: "calculate_anderson_coeffs env (store_new_vector s) = (Returns (), t)"
  shows "handle_previous_vectors env s
           = (Returns (),
              t\<lparr>sln_vector :=
                  map (spec_mixed (history t) (block t (anderson_coeffs t)) (anderson_beta t)
                         (capacity t))
                    [0..<dimension t]\<rparr>)"
    and "history t = history (store_new_vector s)"
    and "dimension t = dimension s"
    and "capacity t = capacity s"
    and "anderson_beta t = anderson_beta s"
    and "vec_in_memory t = vec_in_memory (store_new_vector s)"
proof -
  note r1 = history_ready_store [OF r]
  then have n: "anderson_coeffs (store_new_vector s) \<notin> set (previous_vectors (store_new_vector s))"
    by (simp add: history_ready_def)
  have t: "t = snd (calculate_anderson_coeffs env (store_new_vector s))"
    using c by simp
  note k = calculate_anderson_coeffs_keeps [OF n, of env, folded t]
  note fr = store_new_vector_frame [OF r]
  show "history t = history (store_new_vector s)" by (rule k)
  show "dimension t = dimension s" by (simp add: k fr)
  show cap: "capacity t = capacity s" by (simp add: capacity_def k fr)
  show "anderson_beta t = anderson_beta s" by (simp add: k fr)
  show "vec_in_memory t = vec_in_memory (store_new_vector s)" by (rule k)
  have l: "length (previous_vectors t) = capacity t"
    using r1 by (simp add: k cap fr history_ready_def)
  have "length (sln_vector t) = dimension t"
    using r1 by (simp add: k history_ready_def)
  then have "mix_vectors t = t\<lparr>sln_vector := map (mixed_component t) [0..<dimension t]\<rparr>"
    by (rule mix_vectors_eq)
  moreover have "1 \<le> capacity t"
    using history_ready_bounds [OF r] by (simp add: cap)
  ultimately have "mix_vectors t
      = t\<lparr>sln_vector :=
            map (spec_mixed (history t) (block t (anderson_coeffs t)) (anderson_beta t)
                   (capacity t))
              [0..<dimension t]\<rparr>"
    using mixed_component_spec [OF l] by simp
  then show "handle_previous_vectors env s
           = (Returns (),
              t\<lparr>sln_vector :=
                  map (spec_mixed (history t) (block t (anderson_coeffs t)) (anderson_beta t)
                         (capacity t))
                    [0..<dimension t]\<rparr>)"
    using f c by (simp add: handle_previous_vectors_on [OF on])
qed

lemma handle_previous_vectors_returns:
  assumes on: "anderson_is_on s"
      and h: "handle_previous_vectors env s = (Returns (), s')"
  shows "(history_full (store_new_vector s)
            \<and> (\<exists>t. calculate_anderson_coeffs env (store_new_vector s) = (Returns (), t)))
         \<or> (\<not> history_full (store_new_vector s) \<and> s' = store_new_vector s)"
proof (cases "history_full (store_new_vector s)")
  case True
  obtain o' t where c: "calculate_anderson_coeffs env (store_new_vector s) = (o', t)"
    by (cases "calculate_anderson_coeffs env (store_new_vector s)")
  with h True show ?thesis
    by (cases o') (simp_all add: handle_previous_vectors_on [OF on])
next
  case False
  with h show ?thesis
    by (simp add: handle_previous_vectors_on [OF on])
qed

text \<open>
  C2.  Whenever acceleration is enabled and the history holds as many vectors as its
  capacity k after the push, \<^verbatim>\<open>handle_previous_vectors\<close> replaces the solution vector: its
  component i is the sum over j = 1..k-1 of
  coeff (j-1) * history j i - (1 - damping) * coeff (j-1) * (history j i - history (j-1) i),
  so the damping factor scales the difference of consecutive entries only.
\<close>

theorem mixed_vector_formula:
  assumes "history_ready s" and "anderson_is_on s"
      and "handle_previous_vectors env s = (Returns (), s')"
      and "history_full s'"
      and "i < dimension s"
  shows "sln_vector s' ! i =
           (\<Sum>j = 1..capacity s - 1.
              block s' (anderson_coeffs s') ! (j - 1) * history s' ! j ! i
              - (1 - anderson_beta s) * block s' (anderson_coeffs s') ! (j - 1)
                * (history s' ! j ! i - history s' ! (j - 1) ! i))"
proof -
  from handle_previous_vectors_returns [OF assms(2,3)]
  show ?thesis
  proof (elim disjE conjE exE)
    fix t
    assume f: "history_full (store_new_vector s)"
       and c: "calculate_anderson_coeffs env (store_new_vector s) = (Returns (), t)"
    note h = handle_previous_vectors_full [OF assms(1,2) f c]
    have s': "s' = t\<lparr>sln_vector :=
                  map (spec_mixed (history t) (block t (anderson_coeffs t)) (anderson_beta t)
                         (capacity t))
                    [0..<dimension t]\<rparr>"
      using h(1) assms(3) by simp
    have "history s' = history t" "block s' = block t" "anderson_coeffs s' = anderson_coeffs t"
      by (simp_all add: s' history_def block_def fun_eq_iff)
    then show ?thesis
      using assms(5) h(3,4,5) by (simp add: s' spec_mixed_def)
  next
    assume "\<not> history_full (store_new_vector s)" and "s' = store_new_vector s"
    with assms(4) show ?thesis by simp
  qed
qed

lemmas handle_simps =
  handle_previous_vectors_def store_new_vector_def mix_vectors_def mixed_component_def
  memcpy_def

theorem mixed_vector_formula_witness:
  "history_ready two_stored \<and> anderson_is_on two_stored
   \<and> handle_previous_vectors plain two_stored
        = (Returns (), snd (handle_previous_vectors plain two_stored))
   \<and> history_full (snd (handle_previous_vectors plain two_stored))
   \<and> (0 :: nat) < dimension two_stored
   \<and> history (snd (handle_previous_vectors plain two_stored)) = [[0], [5], [15 / 2]]
   \<and> block (snd (handle_previous_vectors plain two_stored))
        (anderson_coeffs (snd (handle_previous_vectors plain two_stored))) = [- 1, 2]
   \<and> sln_vector (snd (handle_previous_vectors plain two_stored)) ! 0 = 10"
proof -
  have r: "history_ready two_stored" and on: "anderson_is_on two_stored"
    by (simp_all add: scenario_simps history_simps)
  have e: "handle_previous_vectors plain two_stored
             = (Returns (), snd (handle_previous_vectors plain two_stored))"
    by (simp add: scenario_simps anderson_simps handle_simps)
  have f: "history_full (snd (handle_previous_vectors plain two_stored))"
    by (simp add: scenario_simps anderson_simps handle_simps history_full_def)
  have d: "(0 :: nat) < dimension two_stored"
    by (simp add: scenario_simps)
  have h: "history (snd (handle_previous_vectors plain two_stored)) = [[0], [5], [15 / 2]]"
    by (simp add: scenario_simps anderson_simps handle_simps)
  have c: "block (snd (handle_previous_vectors plain two_stored))
        (anderson_coeffs (snd (handle_previous_vectors plain two_stored))) = [- 1, 2]"
    by (simp add: scenario_simps anderson_simps handle_simps)
  have k: "capacity two_stored - 1 = 2" "anderson_beta two_stored = 1"
    by (simp_all add: scenario_simps anderson_simps)
  have "sln_vector (snd (handle_previous_vectors plain two_stored)) ! 0 = 10"
    using mixed_vector_formula [OF r on e f d] unfolding h c k
    by (simp add: atLeastAtMost_upt upt_conv_Cons)
  with r on e f d h c show ?thesis by blast
qed

lemma block_sln_vector:
  "block (s\<lparr>sln_vector := v\<rparr>) = block s"
  by (rule ext) (simp add: block_def)

lemma history_sln_vector:
  "history (s\<lparr>sln_vector := v\<rparr>) = history s"
  by (simp add: history_def block_sln_vector)

lemma history_store_newest:
  assumes r: "history_ready s"
  shows "history (store_new_vector s) ! (unat (vec_in_memory (store_new_vector s)) - 1)
           = sln_vector s"
proof (cases "history_full s")
  case True
  have "length (history s) = capacity s"
    by (rule length_history [OF r])
  moreover have "2 \<le> capacity s"
    by (rule history_ready_bounds [OF r])
  ultimately show ?thesis
    using vec_in_memory_store [OF r] history_full_iff [OF r] True
    by (simp add: history_store_full [OF r True] nth_append)
next
  case False
  have "length (history s) = capacity s"
    by (rule length_history [OF r])
  moreover have "unat (vec_in_memory s) < capacity s"
    using False history_full_iff [OF r] history_ready_bounds [OF r] by simp
  ultimately show ?thesis
    using vec_in_memory_store [OF r]
    by (simp add: history_store_not_full [OF r False])
qed

text \<open>
  C4.  With a history capacity of exactly two and acceleration enabled,
  \<^verbatim>\<open>handle_previous_vectors\<close> always returns, the single coefficient is one and no call to
  the dense helpers is made; the newest history entry is the raw iterate, and component i
  of the mixed vector is that iterate's component minus (1 - damping) times its
  difference to the previous history entry.  The mixed vector is the raw iterate when the
  damping factor is one, its default.
\<close>

theorem capacity_two_mixing:
  assumes "history_ready s" and "anderson_is_on s" and "num_last_vectors_used s = 2"
  shows "\<exists>s'. handle_previous_vectors env s = (Returns (), s')
           \<and> block s' (anderson_coeffs s') = [1]
           \<and> calls s' = calls s
           \<and> history s' ! 1 = sln_vector s
           \<and> (\<forall>i < dimension s.
                 sln_vector s' ! i
                   = sln_vector s ! i
                     - (1 - anderson_beta s) * (sln_vector s ! i - history s' ! 0 ! i))
           \<and> (anderson_beta s = 1 \<longrightarrow> sln_vector s' = sln_vector s)"
proof -
  note r = assms(1)
  have cap: "capacity s = 2"
    using assms(3) by (simp add: capacity_def)
  note b = history_ready_bounds [OF r]
  note fr = store_new_vector_frame [OF r]
  note r1 = history_ready_store [OF r]
  have v: "unat (vec_in_memory (store_new_vector s)) = 2"
    using vec_in_memory_store [OF r] b cap by simp
  then have f: "history_full (store_new_vector s)"
    using history_full_iff [OF r1] by (simp add: fr cap)
  obtain c0 where c0: "heap (store_new_vector s) (anderson_coeffs (store_new_vector s)) = Some c0"
      "length c0 = 1"
    using r1 cap
    by (auto simp: history_ready_def coeffs_allocated_def fr split: option.splits)
  then obtain y where y: "c0 = [y]"
    by (cases c0) simp_all
  define t where "t = store_block (anderson_coeffs (store_new_vector s)) [1] (store_new_vector s)"
  have c: "calculate_anderson_coeffs env (store_new_vector s) = (Returns (), t)"
    using assms(3) c0 y
    by (simp add: calculate_anderson_coeffs_two fr t_def block_def)
  note h = handle_previous_vectors_full [OF r assms(2) f c]
  define s' where "s' = t\<lparr>sln_vector :=
      map (spec_mixed (history t) (block t (anderson_coeffs t)) (anderson_beta t) (capacity t))
        [0..<dimension t]\<rparr>"
  have hs: "history s' = history (store_new_vector s)"
    using h(2) by (simp add: s'_def history_sln_vector)
  have new: "history s' ! 1 = sln_vector s"
    using history_store_newest [OF r] v by (simp add: hs)
  have co: "block t (anderson_coeffs t) = [1]"
    by (simp add: t_def store_block_def block_def)
  have mixed: "spec_mixed (history t) [1] (anderson_beta s) 2 i
                 = sln_vector s ! i - (1 - anderson_beta s) * (sln_vector s ! i - history s' ! 0 ! i)"
    for i
    using new by (simp add: spec_mixed_def hs h(2))
  have l: "length (sln_vector s) = dimension s"
    using r by (simp add: history_ready_def)
  have "handle_previous_vectors env s = (Returns (), s')"
    using h(1) by (simp add: s'_def)
  moreover have "block s' (anderson_coeffs s') = [1]"
    using co by (simp add: s'_def block_sln_vector)
  moreover have "calls s' = calls s"
    by (simp add: s'_def t_def store_block_def fr)
  moreover have "\<forall>i < dimension s.
                 sln_vector s' ! i
                   = sln_vector s ! i
                     - (1 - anderson_beta s) * (sln_vector s ! i - history s' ! 0 ! i)"
    using mixed by (simp add: s'_def co h(3,4,5) cap)
  moreover have "sln_vector s' = sln_vector s" if "anderson_beta s = 1"
  proof -
    from that mixed have "spec_mixed (history t) [1] (anderson_beta s) 2 = (!) (sln_vector s)"
      by (simp add: fun_eq_iff)
    then show ?thesis
      using l map_nth [of "sln_vector s"] by (simp add: s'_def co h(3,4,5) cap)
  qed
  ultimately show ?thesis
    using new by blast
qed

theorem capacity_two_mixing_witness:
  "history_ready (set_anderson_beta 1 damped_pair)
   \<and> anderson_is_on (set_anderson_beta 1 damped_pair)
   \<and> num_last_vectors_used (set_anderson_beta 1 damped_pair) = 2
   \<and> anderson_beta (set_anderson_beta 1 damped_pair) = 1
   \<and> (\<exists>s'. handle_previous_vectors plain (set_anderson_beta 1 damped_pair) = (Returns (), s')
          \<and> block s' (anderson_coeffs s') = [1]
          \<and> calls s' = []
          \<and> history s' ! 1 = [4]
          \<and> sln_vector s' = [4])"
proof -
  have r: "history_ready (set_anderson_beta 1 damped_pair)"
    and on: "anderson_is_on (set_anderson_beta 1 damped_pair)"
    and k: "num_last_vectors_used (set_anderson_beta 1 damped_pair) = 2"
    and b: "anderson_beta (set_anderson_beta 1 damped_pair) = 1"
    by (simp_all add: scenario_simps history_simps)
  have s: "sln_vector (set_anderson_beta 1 damped_pair) = [4]"
     "calls (set_anderson_beta 1 damped_pair) = []"
    by (simp_all add: scenario_simps)
  from capacity_two_mixing [OF r on k, of plain] r on k b show ?thesis
    unfolding s by auto
qed

theorem capacity_two_mixing_counterexample:
  "history_ready damped_pair \<and> anderson_is_on damped_pair
   \<and> num_last_vectors_used damped_pair = 2
   \<and> fst (handle_previous_vectors plain damped_pair) = Returns ()
   \<and> last (history (snd (handle_previous_vectors plain damped_pair))) = [4]
   \<and> sln_vector (snd (handle_previous_vectors plain damped_pair)) = [3]
   \<and> sln_vector (snd (handle_previous_vectors plain damped_pair))
       \<noteq> last (history (snd (handle_previous_vectors plain damped_pair)))"
proof -
  have "history_ready damped_pair" "anderson_is_on damped_pair"
    "num_last_vectors_used damped_pair = 2"
    by (simp_all add: scenario_simps history_simps)
  moreover have "fst (handle_previous_vectors plain damped_pair) = Returns ()"
    by (simp add: scenario_simps anderson_simps handle_simps)
  moreover have "last (history (snd (handle_previous_vectors plain damped_pair))) = [4]"
    by (simp add: scenario_simps anderson_simps handle_simps)
  moreover have "sln_vector (snd (handle_previous_vectors plain damped_pair)) = [3]"
    by (simp add: scenario_simps anderson_simps handle_simps)
  ultimately show ?thesis by simp
qed

section \<open>The acceleration state at the start of \<^verbatim>\<open>solve\<close>\<close>

subsection \<open>Allocation of the history\<close>

lemma new_vectors_eq:
  "new_vectors env n m s =
     ([next_addr s..<next_addr s + m],
      s\<lparr>heap := (\<lambda>a. if next_addr s \<le> a \<and> a < next_addr s + m
                        then Some (replicate n (uninitialised env)) else heap s a),
        next_addr := next_addr s + m\<rparr>)"
proof (induction m arbitrary: s)
  case 0
  have "(\<lambda>a. if next_addr s \<le> a \<and> a < next_addr s
               then Some (replicate n (uninitialised env)) else heap s a) = heap s"
    by (auto simp: fun_eq_iff)
  then show ?case by simp
next
  case (Suc m)
  have "(\<lambda>a. if Suc (next_addr s) \<le> a \<and> a < Suc (next_addr s + m)
               then Some (replicate n (uninitialised env))
               else ((heap s)(next_addr s \<mapsto> replicate n (uninitialised env))) a)
        = (\<lambda>a. if next_addr s \<le> a \<and> a < Suc (next_addr s + m)
               then Some (replicate n (uninitialised env)) else heap s a)"
    by (auto simp: fun_eq_iff)
  then show ?case
    by (simp add: Suc.IH new_array_def upt_conv_Cons cong: if_cong)
qed

lemma init_anderson_eq:
  assumes on: "anderson_is_on s"
      and k: "2 \<le> sint (num_last_vectors_used s)"
      and l: "length (sln_vector s) = dimension s"
  shows "init_anderson env s =
           s\<lparr>previous_vectors := [next_addr s..<next_addr s + capacity s],
             anderson_coeffs := next_addr s + capacity s,
             heap := (\<lambda>a. if a = next_addr s then Some (sln_vector s)
                           else if next_addr s < a \<and> a < next_addr s + capacity s
                             then Some (replicate (dimension s) (uninitialised env))
                           else if a = next_addr s + capacity s
                             then Some (replicate (capacity s - 1) (uninitialised env))
                           else heap s a),
             next_addr := Suc (next_addr s + capacity s)\<rparr>"
proof -
  have c: "2 \<le> capacity s" "nat (sint (num_last_vectors_used s) - 1) = capacity s - 1"
    using k by (simp_all add: capacity_def)
  then have z: "[next_addr s..<next_addr s + capacity s] ! 0 = next_addr s"
    by simp
  have m: "memcpy (replicate (dimension s) (uninitialised env)) ((!) (sln_vector s)) (dimension s)
             = sln_vector s"
    using l by (intro memcpy_whole) simp_all
  have "((\<lambda>a. if next_addr s \<le> a \<and> a < next_addr s + capacity s
                then Some (replicate (dimension s) (uninitialised env)) else heap s a)
          (next_addr s + capacity s \<mapsto> replicate (capacity s - 1) (uninitialised env),
           next_addr s \<mapsto> sln_vector s))
        = (\<lambda>a. if a = next_addr s then Some (sln_vector s)
                 else if next_addr s < a \<and> a < next_addr s + capacity s
                   then Some (replicate (dimension s) (uninitialised env))
                 else if a = next_addr s + capacity s
                   then Some (replicate (capacity s - 1) (uninitialised env))
                 else heap s a)"
    using c by (auto simp: fun_eq_iff)
  then show ?thesis
    using on c z m
    by (simp add: init_anderson_def new_vectors_eq new_array_def store_block_def block_def
        Let_def del: nth_upt)
qed

lemma init_anderson_ready:
  assumes on: "anderson_is_on s"
      and k: "2 \<le> sint (num_last_vectors_used s)"
      and l: "length (sln_vector s) = dimension s"
  shows "history_ready (parameter_setup (init_anderson env s))"
    and "history (parameter_setup (init_anderson env s)) ! 0 = sln_vector s"
    and "vec_in_memory (parameter_setup (init_anderson env s)) = 1"
    and "window (parameter_setup (init_anderson env s)) = [sln_vector s]"
proof -
  have c: "2 \<le> capacity s"
    using k by (simp add: capacity_def)
  have "unat (1 :: 32 word) \<le> unat (num_last_vectors_used s)"
    using c capacity_unat [OF k] by simp
  then have w: "1 \<le> num_last_vectors_used s"
    by (simp only: word_le_nat_alt)
  show r: "history_ready (parameter_setup (init_anderson env s))"
    using k l c w
    by (auto simp: init_anderson_eq [OF assms] parameter_setup_def history_ready_def
        rows_allocated_def coeffs_allocated_def capacity_def list_all_iff)
  have u: "[next_addr s..<next_addr s + capacity s]
             = next_addr s # [Suc (next_addr s)..<next_addr s + capacity s]"
    using c by (simp add: upt_conv_Cons)
  show h: "history (parameter_setup (init_anderson env s)) ! 0 = sln_vector s"
    by (simp add: init_anderson_eq [OF assms] parameter_setup_def history_def block_def u)
  show v: "vec_in_memory (parameter_setup (init_anderson env s)) = 1"
    by (simp add: parameter_setup_def)
  have "length (history (parameter_setup (init_anderson env s))) = capacity s"
    using length_history [OF r]
    by (simp add: init_anderson_eq [OF assms] parameter_setup_def capacity_def)
  then show "window (parameter_setup (init_anderson env s)) = [sln_vector s]"
    using c h by (simp add: window_def v take_Suc_conv_app_nth)
qed

lemma init_solving_returns:
  assumes "init_solving env coeff_vec_arg s = (Returns coeff_vec, s')"
  shows "2 \<le> sint (num_last_vectors_used s')"
    and "length (sln_vector s') = dimension s'"
    and "anderson_is_on s' = anderson_is_on s"
    and "dimension s' = get_dimension env"
    and "coeff_vec_arg = None \<longrightarrow> sln_vector s' = replicate (get_dimension env) 0"
  using assms
  by (auto simp: init_solving_def check_def isOkay_def Let_def calloc_def record_call_def
      memcpy_def split: if_splits option.splits outcome.splits)

subsection \<open>The whole of \<^verbatim>\<open>handle_previous_vectors\<close>\<close>

lemma handle_previous_vectors_frame:
  assumes r: "history_ready s" and on: "anderson_is_on s"
  shows "history (snd (handle_previous_vectors env s)) = history (store_new_vector s)"
    and "vec_in_memory (snd (handle_previous_vectors env s))
           = vec_in_memory (store_new_vector s)"
    and "num_last_vectors_used (snd (handle_previous_vectors env s)) = num_last_vectors_used s"
proof -
  show "history (snd (handle_previous_vectors env s)) = history (store_new_vector s)"
    by (rule history_handle_previous_vectors [OF r on])
  have "history_ready (store_new_vector s)"
    by (rule history_ready_store [OF r])
  then have n: "anderson_coeffs (store_new_vector s) \<notin> set (previous_vectors (store_new_vector s))"
    by (simp add: history_ready_def)
  note k = calculate_anderson_coeffs_keeps [OF n, of env]
  note fr = store_new_vector_frame [OF r]
  obtain o' t where c: "calculate_anderson_coeffs env (store_new_vector s) = (o', t)"
    by (cases "calculate_anderson_coeffs env (store_new_vector s)")
  then have t: "t = snd (calculate_anderson_coeffs env (store_new_vector s))"
    by simp
  show "vec_in_memory (snd (handle_previous_vectors env s))
           = vec_in_memory (store_new_vector s)"
    using c k(6) unfolding t [symmetric]
    by (cases o') (simp_all add: handle_previous_vectors_on [OF on] mix_vectors_def)
  show "num_last_vectors_used (snd (handle_previous_vectors env s)) = num_last_vectors_used s"
    using c k(5) unfolding t [symmetric]
    by (cases o') (simp_all add: handle_previous_vectors_on [OF on] mix_vectors_def fr)
qed

lemma handle_previous_vectors_mixed:
  assumes r: "history_ready s" and on: "anderson_is_on s"
      and h: "handle_previous_vectors env s = (Returns (), s')"
      and f: "history_full s'"
      and i: "i < dimension s"
  shows "sln_vector s' ! i
           = spec_mixed (history s') (block s' (anderson_coeffs s')) (anderson_beta s)
               (capacity s) i"
proof -
  from handle_previous_vectors_returns [OF on h]
  show ?thesis
  proof (elim disjE conjE exE)
    fix t
    assume f: "history_full (store_new_vector s)"
       and c: "calculate_anderson_coeffs env (store_new_vector s) = (Returns (), t)"
    note e = handle_previous_vectors_full [OF r on f c]
    have s': "s' = t\<lparr>sln_vector :=
                  map (spec_mixed (history t) (block t (anderson_coeffs t)) (anderson_beta t)
                         (capacity t))
                    [0..<dimension t]\<rparr>"
      using e(1) h by simp
    show ?thesis
      using i e(3,4,5) by (simp add: s' history_sln_vector block_sln_vector)
  next
    assume "\<not> history_full (store_new_vector s)" and "s' = store_new_vector s"
    with f show ?thesis by simp
  qed
qed

lemmas init_simps =
  init_solving_def check_def isOkay_def calloc_def record_call_def Let_def memcpy_def

section \<open>The ways \<^verbatim>\<open>solve\<close> ends\<close>

subsection \<open>The finalize sequence and the calls it records\<close>

lemma finalize_solving_eq:
  "finalize_solving coeff_vec s =
     s\<lparr>num_iters := it s,
       calls := calls s @ [Tick, Info Duration, OnFinish],
       heap := (if delete_coeff_vec s then (heap s)(coeff_vec := None) else heap s),
       delete_coeff_vec := False\<rparr>"
  by (simp add: finalize_solving_def deinit_solving_def record_call_def delete_array_def Let_def)

lemma finalize_count_append:
  "count_list (xs @ ys) OnFinish = count_list xs OnFinish + count_list ys OnFinish"
  by (induction xs) simp_all

lemma finalize_count_finalize_solving:
  "finalize_count (finalize_solving coeff_vec s) = Suc (finalize_count s)"
  by (simp add: finalize_solving_eq finalize_count_def finalize_count_append)

lemma finalize_count_record_call:
  "c \<noteq> OnFinish \<Longrightarrow> finalize_count (record_call c s) = finalize_count s"
  by (simp add: record_call_def finalize_count_def finalize_count_append)

lemma calls_store_new_vector:
  "calls (store_new_vector s) = calls s"
  by (simp add: store_new_vector_def store_block_def Let_def)

lemma finalize_count_calculate_anderson_coeffs:
  "finalize_count (snd (calculate_anderson_coeffs env s)) = finalize_count s"
  by (simp add: calculate_anderson_coeffs_def Let_def store_block_def record_call_def
      finalize_count_def finalize_count_append split: option.splits prod.splits)

lemma finalize_count_handle_previous_vectors:
  "finalize_count (snd (handle_previous_vectors env s)) = finalize_count s"
proof -
  have a: "finalize_count (store_new_vector s) = finalize_count s"
    by (simp add: finalize_count_def calls_store_new_vector)
  have b: "finalize_count (mix_vectors t) = finalize_count t" for t
    by (simp add: finalize_count_def mix_vectors_def)
  obtain o' t where c: "calculate_anderson_coeffs env (store_new_vector s) = (o', t)"
    by (cases "calculate_anderson_coeffs env (store_new_vector s)")
  then have "finalize_count t = finalize_count s"
    using finalize_count_calculate_anderson_coeffs [of env "store_new_vector s"] a by simp
  then show ?thesis
    using a b c by (cases o') (simp_all add: handle_previous_vectors_def Let_def)
qed

lemma finalize_count_solve_linear_system:
  "finalize_count (solve_linear_system env coeff_vec s) = finalize_count s"
  by (simp add: solve_linear_system_def Let_def record_call_def finalize_count_def
      finalize_count_append)

lemma finalize_count_calculate_error:
  "finalize_count (calculate_error s) = finalize_count s"
  by (simp add: calculate_error_def Let_def finalize_count_def)

lemma handle_convergence_state_continue:
  "handle_convergence_state_return_finished state coeff_vec s = (Returns False, s')
     \<longleftrightarrow> state = NotConverged \<and> s' = s"
  by (cases state) (auto simp: handle_convergence_state_return_finished_def Let_def)

subsection \<open>Passes of the loop\<close>

text \<open>The state in which the convergence is tested in a pass of the loop that starts in \<open>s\<close>.\<close>

lemma solve_loop_body_continues:
  assumes "solve_loop_body env coeff_vec s = Inr s'"
  shows "\<exists>u. on_step_begin env s
           \<and> handle_previous_vectors env (calculate_error (solve_linear_system env coeff_vec s))
               = (Returns (), u)
           \<and> get_convergence_state env (step_info u) = NotConverged
           \<and> on_step_end env (step_info u)
           \<and> s' = store_block coeff_vec
                     (memcpy (block (step_info u) coeff_vec) ((!) (sln_vector (step_info u)))
                        (dimension (step_info u)))
                     ((step_info u)\<lparr>it := it (step_info u) + 1\<rparr>)"
proof -
  have b: "on_step_begin env s"
    using assms by (auto simp: solve_loop_body_def split: if_splits)
  obtain o' u where h: "handle_previous_vectors env
      (calculate_error (solve_linear_system env coeff_vec s)) = (o', u)"
    by (cases "handle_previous_vectors env (calculate_error (solve_linear_system env coeff_vec s))")
  obtain o'' u' where c: "handle_convergence_state_return_finished
      (get_convergence_state env (step_info u)) coeff_vec (step_info u) = (o'', u')"
    by (cases "handle_convergence_state_return_finished
      (get_convergence_state env (step_info u)) coeff_vec (step_info u)")
  have o': "o' = Returns ()"
    using assms b h by (cases o') (simp_all add: solve_loop_body_def Let_def)
  have o'': "o'' = Returns False"
    using assms b h c o'
    by (cases o'') (auto simp: solve_loop_body_def Let_def split: bool.splits)
  then have n: "get_convergence_state env (step_info u) = NotConverged" "u' = step_info u"
    using c handle_convergence_state_continue by blast+
  show ?thesis
    using assms b h c o' o'' n
    by (auto simp: solve_loop_body_def Let_def block_def store_block_def split: if_splits)
qed

lemma solve_loop_body_finalize_count:
  assumes "solve_loop_body env coeff_vec s = Inr s'"
  shows "finalize_count s' = finalize_count s"
proof -
  from solve_loop_body_continues [OF assms] obtain u where
    h: "handle_previous_vectors env (calculate_error (solve_linear_system env coeff_vec s))
          = (Returns (), u)"
    and s': "s' = store_block coeff_vec
                     (memcpy (block (step_info u) coeff_vec) ((!) (sln_vector (step_info u)))
                        (dimension (step_info u)))
                     ((step_info u)\<lparr>it := it (step_info u) + 1\<rparr>)"
    by blast
  have "finalize_count u = finalize_count s"
    using finalize_count_handle_previous_vectors
            [of env "calculate_error (solve_linear_system env coeff_vec s)"] h
    by (simp add: finalize_count_calculate_error finalize_count_solve_linear_system)
  then show ?thesis
    by (simp add: s' store_block_def step_info_def record_call_def finalize_count_def
        finalize_count_append)
qed

lemma loop_state_finalize_count:
  assumes "loop_state env coeff_vec n s = Some t"
  shows "finalize_count t = finalize_count s"
  using assms
proof (induction n arbitrary: t)
  case 0
  then show ?case by simp
next
  case (Suc n)
  then show ?case
    by (auto simp: solve_loop_body_finalize_count split: option.splits sum.splits)
qed

lemma solve_loop_loop_state:
  assumes "loop_state env coeff_vec n s = Some t"
  shows "solve_loop env coeff_vec s = solve_loop env coeff_vec t"
  using assms
proof (induction n arbitrary: t)
  case 0
  then show ?case by simp
next
  case (Suc n)
  then obtain u where u: "loop_state env coeff_vec n s = Some u"
      "solve_loop_body env coeff_vec u = Inr t"
    by (auto split: option.splits sum.splits)
  have "solve_loop env coeff_vec u = solve_loop env coeff_vec t"
    using u(2) by (subst solve_loop.simps) simp
  with Suc.IH [OF u(1)] show ?case by simp
qed

lemma calls_init_anderson:
  "calls (init_anderson env s) = calls s"
  by (simp add: init_anderson_def new_vectors_eq new_array_def store_block_def Let_def)

lemma finalize_count_init_solving:
  "finalize_count (snd (init_solving env coeff_vec_arg s)) = finalize_count s"
  by (simp add: init_solving_def Let_def calloc_def record_call_def finalize_count_def
      finalize_count_append split: outcome.splits option.splits)

lemma do_initial_step_continues:
  assumes "do_initial_step_return_finished env coeff_vec s = (Returns False, s')"
  shows "finalize_count s' = finalize_count s"
proof -
  define s1 where "s1 = s\<lparr>solution_norms :=
      solution_norms s @ [get_l2_norm ((!) (block s coeff_vec)) (dimension s)]\<rparr>"
  obtain o' u where h: "handle_previous_vectors env
      (calculate_error (solve_linear_system env coeff_vec s1)) = (o', u)"
    by (cases "handle_previous_vectors env (calculate_error (solve_linear_system env coeff_vec s1))")
  define u6 where "u6 = store_block coeff_vec
      (memcpy (block (step_info u) coeff_vec) ((!) (sln_vector (step_info u)))
         (dimension (step_info u))) (step_info u)"
  obtain o'' u' where c: "handle_convergence_state_return_finished
      (get_convergence_state env u6) coeff_vec u6 = (o'', u')"
    by (cases "handle_convergence_state_return_finished (get_convergence_state env u6) coeff_vec u6")
  have o': "o' = Returns ()"
    using assms h
    by (cases o') (simp_all add: do_initial_step_return_finished_def Let_def s1_def)
  have o'': "o'' = Returns False"
    using assms h c o'
    by (cases o'')
       (auto simp: do_initial_step_return_finished_def Let_def s1_def u6_def split: bool.splits)
  then have n: "u' = u6"
    using c handle_convergence_state_continue by blast
  have s': "s' = u6"
    using assms h c o' o'' n
    by (auto simp: do_initial_step_return_finished_def Let_def s1_def u6_def)
  have "finalize_count u = finalize_count s1"
    using finalize_count_handle_previous_vectors
            [of env "calculate_error (solve_linear_system env coeff_vec s1)"] h
    by (simp add: finalize_count_calculate_error finalize_count_solve_linear_system)
  then show ?thesis
    by (simp add: s' u6_def s1_def store_block_def step_info_def record_call_def
        finalize_count_def finalize_count_append)
qed

lemma solve_entry_finalize_count:
  assumes "solve_entry env coeff_vec_arg s = Inr (coeff_vec, s')"
  shows "finalize_count s' = finalize_count s"
proof -
  obtain o' s1 where i: "init_solving env coeff_vec_arg s = (o', s1)"
    by (cases "init_solving env coeff_vec_arg s")
  then obtain c where o': "o' = Returns c"
    using assms by (cases o') (simp_all add: solve_entry_def)
  obtain o'' s4 where d: "do_initial_step_return_finished env c
      (parameter_setup (init_anderson env s1)) = (o'', s4)"
    by (cases "do_initial_step_return_finished env c (parameter_setup (init_anderson env s1))")
  have o'': "o'' = Returns False" and s': "s' = s4\<lparr>it := it s4 + 1\<rparr>"
    using assms i o' d
    by (cases o''; auto simp: solve_entry_def Let_def split: bool.splits)+
  have "finalize_count s1 = finalize_count s"
    using finalize_count_init_solving [of env coeff_vec_arg s] i by simp
  moreover have "finalize_count (parameter_setup (init_anderson env s1)) = finalize_count s1"
    by (simp add: finalize_count_def parameter_setup_def calls_init_anderson)
  moreover have "finalize_count s4 = finalize_count (parameter_setup (init_anderson env s1))"
    using d o'' by (intro do_initial_step_continues) simp
  ultimately show ?thesis
    by (simp add: s' finalize_count_def)
qed

text \<open>
  C8.  When \<^verbatim>\<open>on_step_begin\<close> answers false at the head of some pass of the loop, or
  \<^verbatim>\<open>on_step_end\<close> answers false at the end of a pass that has not converged, \<^verbatim>\<open>solve\<close>
  returns without an exception.  The state it leaves is the result of the finalize
  sequence: the tick, the message and \<^verbatim>\<open>on_finish\<close> are recorded after the abort message,
  \<^verbatim>\<open>on_finish\<close> has run once in the whole call, and the solution vector is the one accepted
  last --- that of the previous pass for \<^verbatim>\<open>on_step_begin\<close>, that of the current pass for
  \<^verbatim>\<open>on_step_end\<close>.
\<close>

theorem hook_abort:
  assumes "solve_entry env coeff_vec_arg s = Inr (coeff_vec, s1)"
      and "loop_state env coeff_vec n s1 = Some t"
  shows "(\<not> on_step_begin env t \<longrightarrow>
            (\<exists>t'. solve env coeff_vec_arg s = Some (Returns (), t')
                \<and> t' = finalize_solving coeff_vec (record_call (Info Aborted) t)
                \<and> sln_vector t' = sln_vector t
                \<and> calls t' = calls t @ [Info Aborted, Tick, Info Duration, OnFinish]
                \<and> finalize_count t' = finalize_count s + 1))
         \<and> (\<forall>u. on_step_begin env t
                \<and> handle_previous_vectors env
                     (calculate_error (solve_linear_system env coeff_vec t)) = (Returns (), u)
                \<and> get_convergence_state env (step_info u) = NotConverged
                \<and> \<not> on_step_end env (step_info u) \<longrightarrow>
                (\<exists>t'. solve env coeff_vec_arg s = Some (Returns (), t')
                    \<and> t' = finalize_solving coeff_vec (record_call (Info Aborted) (step_info u))
                    \<and> sln_vector t' = sln_vector u
                    \<and> calls t' = calls u @ [Info StepInfo, Info Aborted, Tick, Info Duration,
                                             OnFinish]
                    \<and> finalize_count t' = finalize_count s + 1))"
proof -
  have e: "solve env coeff_vec_arg s = solve_loop env coeff_vec t"
    using assms solve_loop_loop_state [OF assms(2)] by (simp add: solve_def)
  have c: "finalize_count t = finalize_count s"
    using solve_entry_finalize_count [OF assms(1)] loop_state_finalize_count [OF assms(2)]
    by simp
  have "solve_loop env coeff_vec t
          = Some (Returns (), finalize_solving coeff_vec (record_call (Info Aborted) t))"
    if "\<not> on_step_begin env t"
    using that by (subst solve_loop.simps) (simp add: solve_loop_body_def)
  moreover have "solve_loop env coeff_vec t
          = Some (Returns (), finalize_solving coeff_vec (record_call (Info Aborted) (step_info u)))"
    if "on_step_begin env t"
      and "handle_previous_vectors env (calculate_error (solve_linear_system env coeff_vec t))
             = (Returns (), u)"
      and "get_convergence_state env (step_info u) = NotConverged"
      and "\<not> on_step_end env (step_info u)" for u
    using that
    by (subst solve_loop.simps)
       (simp add: solve_loop_body_def Let_def handle_convergence_state_return_finished_def)
  moreover have "finalize_count u = finalize_count t"
    if "handle_previous_vectors env (calculate_error (solve_linear_system env coeff_vec t))
             = (Returns (), u)" for u
    using finalize_count_handle_previous_vectors
            [of env "calculate_error (solve_linear_system env coeff_vec t)"] that
    by (simp add: finalize_count_calculate_error finalize_count_solve_linear_system)
  ultimately show ?thesis
    using c
    by (auto simp: e finalize_solving_eq record_call_def step_info_def finalize_count_def
        finalize_count_append)
qed

lemmas solve_simps =
  solve_entry_def init_simps init_anderson_def parameter_setup_def
  do_initial_step_return_finished_def solve_linear_system_def calculate_error_def
  handle_previous_vectors_def step_info_def store_block_def block_def
  handle_convergence_state_return_finished_def get_l2_norm_def upt_conv_Cons

theorem hook_abort_witness:
  "(\<exists>s1. solve_entry begin_refuses None new_solver = Inr (0, s1)
         \<and> loop_state begin_refuses 0 0 s1 = Some s1
         \<and> \<not> on_step_begin begin_refuses s1)
   \<and> (\<exists>t'. solve begin_refuses None new_solver = Some (Returns (), t')
          \<and> sln_vector t' = [5] \<and> finalize_count t' = 1)
   \<and> (\<exists>s1 u. solve_entry end_refuses None new_solver = Inr (0, s1)
         \<and> loop_state end_refuses 0 0 s1 = Some s1
         \<and> on_step_begin end_refuses s1
         \<and> handle_previous_vectors end_refuses
              (calculate_error (solve_linear_system end_refuses 0 s1)) = (Returns (), u)
         \<and> get_convergence_state end_refuses (step_info u) = NotConverged
         \<and> \<not> on_step_end end_refuses (step_info u))
   \<and> (\<exists>t'. solve end_refuses None new_solver = Some (Returns (), t')
          \<and> sln_vector t' = [15 / 2] \<and> finalize_count t' = 1)"
proof -
  define b where "b = snd (projr (solve_entry begin_refuses None new_solver))"
  define e where "e = snd (projr (solve_entry end_refuses None new_solver))"
  define u where "u = calculate_error (solve_linear_system end_refuses 0 e)"
  have b1: "solve_entry begin_refuses None new_solver = Inr (0, b)"
    unfolding b_def by (simp add: begin_refuses_def scenario_simps solve_simps)
  have b2: "loop_state begin_refuses 0 0 b = Some b"
    by simp
  have b3: "\<not> on_step_begin begin_refuses b"
    by (simp add: begin_refuses_def scenario_def)
  have b4: "sln_vector b = [5]"
    unfolding b_def by (simp add: begin_refuses_def scenario_simps solve_simps)
  have e1: "solve_entry end_refuses None new_solver = Inr (0, e)"
    unfolding e_def by (simp add: end_refuses_def scenario_simps solve_simps)
  have e2: "loop_state end_refuses 0 0 e = Some e"
    by simp
  have e3: "on_step_begin end_refuses e"
    by (simp add: end_refuses_def scenario_def)
  have e4: "sln_vector u = [15 / 2]" and e5: "\<not> anderson_is_on u"
    unfolding u_def e_def by (simp_all add: end_refuses_def scenario_simps solve_simps)
  have e6: "handle_previous_vectors end_refuses
              (calculate_error (solve_linear_system end_refuses 0 e)) = (Returns (), u)"
    using e5 by (simp add: handle_previous_vectors_def u_def)
  have e7: "get_convergence_state end_refuses (step_info u) = NotConverged"
    and e8: "\<not> on_step_end end_refuses (step_info u)"
    by (simp_all add: end_refuses_def scenario_def)
  have z: "finalize_count new_solver = 0"
    by (simp add: finalize_count_def scenario_simps)
  from hook_abort [OF b1 b2] b3 b4 z
  have "\<exists>t'. solve begin_refuses None new_solver = Some (Returns (), t')
          \<and> sln_vector t' = [5] \<and> finalize_count t' = 1"
    by auto
  moreover from hook_abort [OF e1 e2] e3 e4 e6 e7 e8 z
  have "\<exists>t'. solve end_refuses None new_solver = Some (Returns (), t')
          \<and> sln_vector t' = [15 / 2] \<and> finalize_count t' = 1"
    by auto
  ultimately show ?thesis
    using b1 b2 b3 e1 e2 e3 e6 e7 e8 by blast
qed


lemma handle_previous_vectors_throws:
  assumes "handle_previous_vectors env s = (Throws e, t)"
  shows "e = SingularMatrix"
  using assms
  by (auto simp: handle_previous_vectors_def calculate_anderson_coeffs_def Let_def
      split: if_splits prod.splits outcome.splits option.splits)

lemma handle_convergence_state_finished:
  assumes "state \<noteq> NotConverged"
  shows "handle_convergence_state_return_finished state coeff_vec s =
           (case state of
              Converged \<Rightarrow> (Returns True, record_call (Info Done) (finalize_solving coeff_vec s))
            | AboveMaxIterations \<Rightarrow>
                (Throws (NonlinearException AboveMaxIterations), finalize_solving coeff_vec s)
            | Error \<Rightarrow> (Throws UnknownException, finalize_solving coeff_vec s)
            | _ \<Rightarrow> (Throws UnknownConvergenceState, finalize_solving coeff_vec s))"
  using assms
  by (cases state) (simp_all add: handle_convergence_state_return_finished_def Let_def)

lemma handle_convergence_state_finalize_count:
  assumes "handle_convergence_state_return_finished state coeff_vec s = (r, t)"
  shows "finalize_count t = finalize_count s + (if state = NotConverged then 0 else 1)"
    and "r \<noteq> Throws SingularMatrix"
    and "r \<noteq> Throws BadNumLastVectors"
    and "r \<noteq> Throws NotOkay"
  using assms
  by (cases state;
      auto simp: handle_convergence_state_return_finished_def Let_def
        finalize_count_finalize_solving finalize_count_record_call)+

lemma solve_loop_body_exits:
  assumes "solve_loop_body env coeff_vec s = Inl (r, t)"
  shows "finalize_count t = finalize_count s + (if r = Throws SingularMatrix then 0 else 1)"
proof (cases "on_step_begin env s")
  case False
  with assms show ?thesis
    by (auto simp: solve_loop_body_def finalize_count_finalize_solving finalize_count_record_call)
next
  case True
  define s2 where "s2 = calculate_error (solve_linear_system env coeff_vec s)"
  have c2: "finalize_count s2 = finalize_count s"
    by (simp add: s2_def finalize_count_calculate_error finalize_count_solve_linear_system)
  obtain o' u where h: "handle_previous_vectors env s2 = (o', u)"
    by (cases "handle_previous_vectors env s2")
  have cu: "finalize_count u = finalize_count s"
    using finalize_count_handle_previous_vectors [of env s2] h c2 by simp
  show ?thesis
  proof (cases o')
    case (Throws e)
    then have "e = SingularMatrix"
      using h handle_previous_vectors_throws by blast
    with assms True h Throws cu show ?thesis
      by (simp add: solve_loop_body_def Let_def s2_def)
  next
    case (Returns x)
    obtain o'' u' where c: "handle_convergence_state_return_finished
        (get_convergence_state env (step_info u)) coeff_vec (step_info u) = (o'', u')"
      by (cases "handle_convergence_state_return_finished
        (get_convergence_state env (step_info u)) coeff_vec (step_info u)")
    note f = handle_convergence_state_finalize_count [OF c]
    have cs: "finalize_count (step_info u) = finalize_count s"
      using cu by (simp add: step_info_def finalize_count_record_call)
    show ?thesis
    proof (cases "get_convergence_state env (step_info u) = NotConverged")
      case nc: True
      then have "o'' = Returns False" "u' = step_info u"
        using c by (simp_all add: handle_convergence_state_return_finished_def)
      with assms True h Returns cs show ?thesis
        by (auto simp: solve_loop_body_def Let_def s2_def c finalize_count_finalize_solving
            finalize_count_record_call split: if_splits)
    next
      case False
      then have "o'' \<noteq> Returns False"
        using c handle_convergence_state_continue by blast
      with assms True h Returns cs f False show ?thesis
        by (cases o'')
           (auto simp: solve_loop_body_def Let_def s2_def c split: if_splits bool.splits)
    qed
  qed
qed

lemma solve_loop_finalizes_once_aux:
  assumes "solve_loop env coeff_vec s = Some y"
  shows "finalize_count (snd y)
           = finalize_count s + (if fst y = Throws SingularMatrix then 0 else 1)"
proof (rule solve_loop.raw_induct
    [where P = "\<lambda>env coeff_vec s y. finalize_count (snd y)
           = finalize_count s + (if fst y = Throws SingularMatrix then 0 else 1)", OF _ assms])
  fix loop env coeff_vec s y
  assume ih: "\<And>env coeff_vec s y. loop env coeff_vec s = Some y \<Longrightarrow>
                finalize_count (snd y)
                  = finalize_count s + (if fst y = Throws SingularMatrix then 0 else 1)"
     and st: "(case solve_loop_body env coeff_vec s of
                 Inl r \<Rightarrow> Some r
               | Inr s' \<Rightarrow> loop env coeff_vec s') = Some y"
  show "finalize_count (snd y)
          = finalize_count s + (if fst y = Throws SingularMatrix then 0 else 1)"
  proof (cases "solve_loop_body env coeff_vec s")
    case (Inl a)
    with st show ?thesis
      using solve_loop_body_exits [of env coeff_vec s "fst y" "snd y"] by simp
  next
    case (Inr s')
    with st ih have "finalize_count (snd y)
                   = finalize_count s' + (if fst y = Throws SingularMatrix then 0 else 1)"
      by simp
    then show ?thesis
      using solve_loop_body_finalize_count [OF Inr] by simp
  qed
qed

lemma solve_loop_finalizes_once:
  assumes "solve_loop env coeff_vec s = Some (r, t)"
  shows "finalize_count t = finalize_count s + (if r = Throws SingularMatrix then 0 else 1)"
  using solve_loop_finalizes_once_aux [OF assms] by simp

lemma fatal_states_propagate:
  assumes "on_step_begin env s"
      and "handle_previous_vectors env (calculate_error (solve_linear_system env coeff_vec s))
             = (Returns (), u)"
  shows "get_convergence_state env (step_info u) = AboveMaxIterations \<Longrightarrow>
           solve_loop env coeff_vec s
             = Some (Throws (NonlinearException AboveMaxIterations),
                     finalize_solving coeff_vec (step_info u))"
    and "get_convergence_state env (step_info u) = Error \<Longrightarrow>
           solve_loop env coeff_vec s
             = Some (Throws UnknownException, finalize_solving coeff_vec (step_info u))"
  using assms
  by (subst solve_loop.simps,
      simp add: solve_loop_body_def Let_def handle_convergence_state_return_finished_def)+

text \<open>
  C6.  The finalize sequence does not run exactly once on every outcome.  When the first
  iteration converges, it has already run inside
  \<^verbatim>\<open>handle_convergence_state_return_finished\<close> when \<^verbatim>\<open>do_initial_step_return_finished\<close>
  answers true, and \<^verbatim>\<open>solve\<close> runs it again after the abort message, so the timer is
  stopped twice and \<^verbatim>\<open>on_finish\<close> is invoked twice.  When the convergence is found in the
  loop, the sequence runs once.
\<close>

theorem finalize_twice_on_initial_convergence:
  "(\<exists>t. solve converges_at_once None new_solver = Some (Returns (), t)
       \<and> calls t = [Tick, OnInitialization, Assemble, MatrixSolve, Info StepInfo,
                    Tick, Info Duration, OnFinish, Info Done,
                    Info Aborted, Tick, Info Duration, OnFinish]
       \<and> finalize_count t = 2)
   \<and> (\<exists>t. solve converges_in_loop None new_solver = Some (Returns (), t)
       \<and> calls t = [Tick, OnInitialization, Assemble, MatrixSolve, Info StepInfo,
                    Assemble, MatrixSolve, Info StepInfo,
                    Tick, Info Duration, OnFinish, Info Done]
       \<and> finalize_count t = 1)"
proof -
  define a where "a = snd (the (solve converges_at_once None new_solver))"
  define b where "b = snd (the (solve converges_in_loop None new_solver))"
  have a1: "solve converges_at_once None new_solver = Some (Returns (), a)"
    unfolding a_def by (simp add: solve_def converges_at_once_def scenario_simps solve_simps)
  have a2: "calls a
          = [Tick, OnInitialization, Assemble, MatrixSolve, Info StepInfo,
             Tick, Info Duration, OnFinish, Info Done,
             Info Aborted, Tick, Info Duration, OnFinish]"
    unfolding a_def
    by (simp add: solve_def converges_at_once_def scenario_simps solve_simps
        finalize_solving_eq)
  have a3: "finalize_count a = 2"
    by (simp add: finalize_count_def a2)
  have b1: "solve converges_in_loop None new_solver = Some (Returns (), b)"
    unfolding b_def
    by (simp add: solve_def converges_in_loop_def scenario_simps solve_simps
        solve_loop.simps solve_loop_body_def)
  have b2: "calls b
          = [Tick, OnInitialization, Assemble, MatrixSolve, Info StepInfo,
             Assemble, MatrixSolve, Info StepInfo,
             Tick, Info Duration, OnFinish, Info Done]"
    unfolding b_def
    by (simp add: solve_def converges_in_loop_def scenario_simps solve_simps
        solve_loop.simps solve_loop_body_def finalize_solving_eq)
  have b3: "finalize_count b = 1"
    by (simp add: finalize_count_def b2)
  from a1 a2 a3 b1 b2 b3 show ?thesis
    by blast
qed

section \<open>The lifetime of the acceleration state\<close>

subsection \<open>The history stays allocated\<close>

lemma history_ready_cong:
  assumes "num_last_vectors_used t = num_last_vectors_used s"
      and "previous_vectors t = previous_vectors s"
      and "heap t = heap s"
      and "dimension t = dimension s"
      and "anderson_coeffs t = anderson_coeffs s"
      and "length (sln_vector t) = length (sln_vector s)"
      and "vec_in_memory t = vec_in_memory s"
  shows "history_ready t = history_ready s"
  using assms
  by (simp add: history_ready_def rows_allocated_def coeffs_allocated_def capacity_def
      cong: option.case_cong)

lemma history_ready_coeffs_update:
  assumes "history_ready s" and "Suc (length c1) = capacity s"
      and "num_last_vectors_used t = num_last_vectors_used s"
      and "previous_vectors t = previous_vectors s"
      and "heap t = (heap s)(anderson_coeffs s \<mapsto> c1)"
      and "dimension t = dimension s"
      and "anderson_coeffs t = anderson_coeffs s"
      and "length (sln_vector t) = length (sln_vector s)"
      and "vec_in_memory t = vec_in_memory s"
  shows "history_ready t"
  using assms
  by (auto simp: history_ready_def rows_allocated_def coeffs_allocated_def capacity_def
      list_all_iff split: option.splits)

lemma history_ready_heap_other:
  assumes "history_ready s" and "a \<notin> set (previous_vectors s)" and "a \<noteq> anderson_coeffs s"
  shows "history_ready (s\<lparr>heap := (heap s)(a := x)\<rparr>)"
  using assms
  by (auto simp: history_ready_def rows_allocated_def coeffs_allocated_def capacity_def
      list_all_iff split: option.splits)

lemma length_memcpy:
  "n \<le> length dst \<Longrightarrow> length (memcpy dst src n) = length dst"
  by (simp add: memcpy_def)

lemma acceleration_live_solve_linear_system:
  "acceleration_live coeff_vec (solve_linear_system env coeff_vec s) = acceleration_live coeff_vec s"
proof -
  have "history_ready (solve_linear_system env coeff_vec s) = history_ready s"
    by (rule history_ready_cong) (simp_all add: solve_linear_system_def Let_def record_call_def)
  then show ?thesis
    by (simp add: acceleration_live_def) (simp add: solve_linear_system_def Let_def record_call_def)
qed

lemma acceleration_live_calculate_error:
  assumes "acceleration_live coeff_vec s"
  shows "acceleration_live coeff_vec (calculate_error s)"
proof -
  have l: "length (sln_vector s) = dimension s"
    using assms by (simp add: acceleration_live_def history_ready_def)
  have "history_ready (calculate_error s) = history_ready s"
    by (rule history_ready_cong) (simp_all add: calculate_error_def Let_def length_memcpy l)
  then show ?thesis
    using assms by (simp add: acceleration_live_def) (simp add: calculate_error_def Let_def)
qed

lemma history_ready_calculate_anderson_coeffs:
  assumes r: "history_ready s"
  shows "history_ready (snd (calculate_anderson_coeffs env s))"
proof -
  have k: "2 \<le> sint (num_last_vectors_used s)" and c: "coeffs_allocated s"
    and n: "anderson_coeffs s \<notin> set (previous_vectors s)"
    using r by (simp_all add: history_ready_def)
  obtain c0 where c0: "heap s (anderson_coeffs s) = Some c0" "Suc (length c0) = capacity s"
    using c by (auto simp: coeffs_allocated_def split: option.splits)
  show ?thesis
  proof (cases "num_last_vectors_used s = 2")
    case True
    have "Suc (length (c0[0 := 1])) = capacity s"
      using c0 by simp
    with r show ?thesis
      by (rule history_ready_coeffs_update)
         (simp_all add: True c0 calculate_anderson_coeffs_two store_block_def block_def)
  next
    case False
    then have k3: "3 \<le> sint (num_last_vectors_used s)"
      using k by (simp add: sint_two_iff)
    show ?thesis
    proof (cases "ludcmp env (anderson_mat s (capacity s - 2)) (capacity s - 2)")
      case None
      have "history_ready (snd (calculate_anderson_coeffs env s)) = history_ready s"
        by (rule history_ready_cong)
           (simp_all add: None calculate_anderson_coeffs_dense [OF k3 c] record_call_def)
      with r show ?thesis by simp
    next
      case (Some a)
      obtain lu perm where a: "a = (lu, perm)" by (cases a)
      define x where "x = map (lubksb env lu (capacity s - 2) perm
                                (anderson_rhs s (capacity s - 2))) [0..<capacity s - 2]"
      have "Suc (length (x @ [round_double (1 - accumulated x)])) = capacity s"
        using k by (simp add: x_def capacity_def)
      with r show ?thesis
        by (rule history_ready_coeffs_update)
           (simp_all add: Some a calculate_anderson_coeffs_dense [OF k3 c] Let_def
              store_block_def record_call_def x_def)
    qed
  qed
qed

lemma history_ready_mix_vectors:
  assumes "history_ready s"
  shows "history_ready (mix_vectors s)"
proof -
  have l: "length (sln_vector s) = dimension s"
    using assms by (simp add: history_ready_def)
  have "history_ready (mix_vectors s) = history_ready s"
    by (rule history_ready_cong) (simp_all add: mix_vectors_eq [OF l] l)
  with assms show ?thesis by simp
qed

lemma acceleration_live_handle_previous_vectors:
  assumes "acceleration_live coeff_vec s"
  shows "acceleration_live coeff_vec (snd (handle_previous_vectors env s))"
proof -
  have on: "anderson_is_on s" and r: "history_ready s"
    and n: "coeff_vec \<notin> set (previous_vectors s)" "coeff_vec \<noteq> anderson_coeffs s"
    using assms by (simp_all add: acceleration_live_def)
  note r1 = history_ready_store [OF r]
  note fr = store_new_vector_frame [OF r]
  have p1: "set (previous_vectors (store_new_vector s)) = set (previous_vectors s)"
  proof (cases "history_full s")
    case True
    have "previous_vectors s \<noteq> []"
      using r history_ready_bounds [OF r] by (auto simp: history_ready_def)
    then have "set (tl (previous_vectors s) @ [hd (previous_vectors s)]) = set (previous_vectors s)"
      by (cases "previous_vectors s") auto
    then show ?thesis
      by (simp add: store_new_vector_full [OF r True])
  next
    case False
    then show ?thesis
      by (simp add: store_new_vector_not_full [OF r False])
  qed
  have live1: "acceleration_live coeff_vec (store_new_vector s)"
    using on r1 n by (simp add: acceleration_live_def fr p1)
  have n1: "anderson_coeffs (store_new_vector s) \<notin> set (previous_vectors (store_new_vector s))"
    using r1 by (simp add: history_ready_def)
  note k = calculate_anderson_coeffs_keeps [OF n1, of env]
  have live2: "acceleration_live coeff_vec (snd (calculate_anderson_coeffs env (store_new_vector s)))"
    using live1 history_ready_calculate_anderson_coeffs [OF r1, of env]
    by (simp add: acceleration_live_def k)
  have live3: "acceleration_live coeff_vec (mix_vectors t)" if "acceleration_live coeff_vec t" for t
    using that history_ready_mix_vectors [of t]
    by (simp add: acceleration_live_def) (simp add: mix_vectors_def)
  obtain o' t where c: "calculate_anderson_coeffs env (store_new_vector s) = (o', t)"
    by (cases "calculate_anderson_coeffs env (store_new_vector s)")
  with live2 have "acceleration_live coeff_vec t" by simp
  then show ?thesis
    using c live1 live3 [of t]
    by (cases o') (simp_all add: handle_previous_vectors_on [OF on])
qed

lemma acceleration_live_store_coeff_vec:
  assumes "acceleration_live coeff_vec s"
  shows "acceleration_live coeff_vec (store_block coeff_vec v s)"
proof -
  have "history_ready (s\<lparr>heap := (heap s)(coeff_vec := Some v)\<rparr>)"
    using assms by (intro history_ready_heap_other) (simp_all add: acceleration_live_def)
  then show ?thesis
    using assms by (simp add: acceleration_live_def store_block_def)
qed

lemma acceleration_live_record_call:
  "acceleration_live coeff_vec (record_call c s) = acceleration_live coeff_vec s"
proof -
  have "history_ready (record_call c s) = history_ready s"
    by (rule history_ready_cong) (simp_all add: record_call_def)
  then show ?thesis
    by (simp add: acceleration_live_def) (simp add: record_call_def)
qed

lemma acceleration_live_it:
  "acceleration_live coeff_vec (s\<lparr>it := i\<rparr>) = acceleration_live coeff_vec s"
proof -
  have "history_ready (s\<lparr>it := i\<rparr>) = history_ready s"
    by (rule history_ready_cong) simp_all
  then show ?thesis
    by (simp add: acceleration_live_def)
qed

lemma acceleration_live_finalize_solving:
  assumes "acceleration_live coeff_vec s"
  shows "acceleration_live coeff_vec (finalize_solving coeff_vec s)"
proof -
  have r: "history_ready s" and n: "coeff_vec \<notin> set (previous_vectors s)"
      "coeff_vec \<noteq> anderson_coeffs s"
    using assms by (simp_all add: acceleration_live_def)
  have a: "history_ready (s\<lparr>heap := (heap s)(coeff_vec := None)\<rparr>)"
    using r n by (rule history_ready_heap_other)
  have "history_ready (finalize_solving coeff_vec s)
          = history_ready (if delete_coeff_vec s then s\<lparr>heap := (heap s)(coeff_vec := None)\<rparr>
                           else s)"
    by (rule history_ready_cong) (simp_all add: finalize_solving_eq)
  then show ?thesis
    using assms a by (simp add: acceleration_live_def) (simp add: finalize_solving_eq)
qed

lemma acceleration_live_handle_convergence_state:
  assumes "acceleration_live coeff_vec s"
  shows "acceleration_live coeff_vec
           (snd (handle_convergence_state_return_finished state coeff_vec s))"
  using assms acceleration_live_finalize_solving [OF assms]
  by (cases state)
     (simp_all add: handle_convergence_state_return_finished_def Let_def
        acceleration_live_record_call)

lemma solve_loop_body_live:
  assumes "acceleration_live coeff_vec s"
  shows "case solve_loop_body env coeff_vec s of
           Inl (r, t) \<Rightarrow> acceleration_live coeff_vec t
         | Inr s' \<Rightarrow> acceleration_live coeff_vec s'"
proof (cases "on_step_begin env s")
  case False
  then show ?thesis
    using assms
    by (simp add: solve_loop_body_def acceleration_live_finalize_solving
        acceleration_live_record_call)
next
  case True
  define s2 where "s2 = calculate_error (solve_linear_system env coeff_vec s)"
  have l2: "acceleration_live coeff_vec s2"
    using assms
    by (simp add: s2_def acceleration_live_calculate_error acceleration_live_solve_linear_system)
  obtain o' u where h: "handle_previous_vectors env s2 = (o', u)"
    by (cases "handle_previous_vectors env s2")
  have lu: "acceleration_live coeff_vec u"
    using acceleration_live_handle_previous_vectors [OF l2, of env] h by simp
  then have l4: "acceleration_live coeff_vec (step_info u)"
    by (simp add: step_info_def acceleration_live_record_call)
  show ?thesis
  proof (cases o')
    case (Throws e)
    with True h lu show ?thesis
      by (simp add: solve_loop_body_def Let_def s2_def)
  next
    case (Returns x)
    obtain o'' u' where c: "handle_convergence_state_return_finished
        (get_convergence_state env (step_info u)) coeff_vec (step_info u) = (o'', u')"
      by (cases "handle_convergence_state_return_finished
        (get_convergence_state env (step_info u)) coeff_vec (step_info u)")
    have l5: "acceleration_live coeff_vec u'"
      using acceleration_live_handle_convergence_state [OF l4, of "get_convergence_state env (step_info u)"] c
      by simp
    have l6: "acceleration_live coeff_vec
        (store_block coeff_vec v (u'\<lparr>it := it u' + 1\<rparr>))" for v
      using l5 by (intro acceleration_live_store_coeff_vec) (simp add: acceleration_live_it)
    have l7: "acceleration_live coeff_vec (finalize_solving coeff_vec (record_call (Info Aborted) u'))"
      using l5 by (intro acceleration_live_finalize_solving) (simp add: acceleration_live_record_call)
    show ?thesis
      using True h Returns c l5 l6 l7
      by (cases o'')
         (auto simp: solve_loop_body_def Let_def s2_def split: bool.splits)
  qed
qed

lemma solve_loop_live_aux:
  assumes "solve_loop env coeff_vec s = Some y"
  shows "acceleration_live coeff_vec s \<longrightarrow> acceleration_live coeff_vec (snd y)"
proof (rule solve_loop.raw_induct
    [where P = "\<lambda>env coeff_vec s y.
        acceleration_live coeff_vec s \<longrightarrow> acceleration_live coeff_vec (snd y)", OF _ assms])
  fix loop env coeff_vec s y
  assume ih: "\<And>env coeff_vec s y. loop env coeff_vec s = Some y \<Longrightarrow>
                acceleration_live coeff_vec s \<longrightarrow> acceleration_live coeff_vec (snd y)"
     and st: "(case solve_loop_body env coeff_vec s of
                 Inl r \<Rightarrow> Some r
               | Inr s' \<Rightarrow> loop env coeff_vec s') = Some y"
  show "acceleration_live coeff_vec s \<longrightarrow> acceleration_live coeff_vec (snd y)"
  proof
    assume l: "acceleration_live coeff_vec s"
    note b = solve_loop_body_live [OF l, of env]
    show "acceleration_live coeff_vec (snd y)"
    proof (cases "solve_loop_body env coeff_vec s")
      case (Inl a)
      with st b show ?thesis
        by (auto split: prod.splits)
    next
      case (Inr s')
      with st b ih [of env coeff_vec s' y] show ?thesis
        by simp
    qed
  qed
qed

lemma do_initial_step_live:
  assumes "acceleration_live coeff_vec s"
  shows "acceleration_live coeff_vec (snd (do_initial_step_return_finished env coeff_vec s))"
proof -
  define s1 where "s1 = s\<lparr>solution_norms :=
      solution_norms s @ [get_l2_norm ((!) (block s coeff_vec)) (dimension s)]\<rparr>"
  have "history_ready s1 = history_ready s"
    by (rule history_ready_cong) (simp_all add: s1_def)
  then have l1: "acceleration_live coeff_vec s1"
    using assms by (simp add: acceleration_live_def) (simp add: s1_def)
  define s3 where "s3 = calculate_error (solve_linear_system env coeff_vec s1)"
  have l3: "acceleration_live coeff_vec s3"
    using l1
    by (simp add: s3_def acceleration_live_calculate_error acceleration_live_solve_linear_system)
  obtain o' u where h: "handle_previous_vectors env s3 = (o', u)"
    by (cases "handle_previous_vectors env s3")
  have lu: "acceleration_live coeff_vec u"
    using acceleration_live_handle_previous_vectors [OF l3, of env] h by simp
  define u6 where "u6 = store_block coeff_vec
      (memcpy (block (step_info u) coeff_vec) ((!) (sln_vector (step_info u)))
         (dimension (step_info u))) (step_info u)"
  have l6: "acceleration_live coeff_vec u6"
    unfolding u6_def using lu
    by (intro acceleration_live_store_coeff_vec)
       (simp add: step_info_def acceleration_live_record_call)
  obtain o'' u' where c: "handle_convergence_state_return_finished
      (get_convergence_state env u6) coeff_vec u6 = (o'', u')"
    by (cases "handle_convergence_state_return_finished (get_convergence_state env u6) coeff_vec u6")
  have l7: "acceleration_live coeff_vec u'"
    using acceleration_live_handle_convergence_state [OF l6, of "get_convergence_state env u6"] c
    by simp
  show ?thesis
  proof (cases o')
    case (Throws e)
    with h lu show ?thesis
      by (simp add: do_initial_step_return_finished_def Let_def s1_def s3_def)
  next
    case (Returns x)
    with h c l7 show ?thesis
      by (cases o'')
         (auto simp: do_initial_step_return_finished_def Let_def s1_def s3_def u6_def
            split: bool.splits)
  qed
qed

lemma init_solving_coeff_vec:
  assumes "init_solving env coeff_vec_arg s = (Returns coeff_vec, s')"
      and "\<forall>c. coeff_vec_arg = Some c \<longrightarrow> c < next_addr s"
  shows "coeff_vec < next_addr s'"
  using assms
  by (auto simp: init_solving_def Let_def calloc_def record_call_def
      split: outcome.splits option.splits)

lemma solve_entry_live:
  assumes on: "anderson_is_on s"
      and cv: "\<forall>c. coeff_vec_arg = Some c \<longrightarrow> c < next_addr s"
  shows "case solve_entry env coeff_vec_arg s of
           Inl (r, t) \<Rightarrow>
             r = Throws BadNumLastVectors \<or> r = Throws NotOkay
             \<or> (\<exists>coeff_vec. acceleration_live coeff_vec t)
         | Inr (coeff_vec, s') \<Rightarrow> acceleration_live coeff_vec s'"
proof -
  obtain o' s1 where i: "init_solving env coeff_vec_arg s = (o', s1)"
    by (cases "init_solving env coeff_vec_arg s")
  show ?thesis
  proof (cases o')
    case (Throws e)
    then have "e = BadNumLastVectors \<or> e = NotOkay"
      using i
      by (auto simp: init_solving_def check_def isOkay_def Let_def
          split: outcome.splits option.splits if_splits prod.splits)
    with i Throws show ?thesis
      by (auto simp: solve_entry_def)
  next
    case (Returns c)
    note r = init_solving_returns [OF i [unfolded Returns]]
    have on1: "anderson_is_on s1"
      using on r(3) by simp
    have lt: "c < next_addr s1"
      using i cv unfolding Returns by (rule init_solving_coeff_vec)
    note a = init_anderson_ready [OF on1 r(1,2), of env]
    note e = init_anderson_eq [OF on1 r(1,2), of env]
    define s3 where "s3 = parameter_setup (init_anderson env s1)"
    have l3: "acceleration_live c s3"
      using a(1) on1 lt
      by (simp add: acceleration_live_def s3_def) (simp add: e parameter_setup_def)
    obtain o'' s4 where d: "do_initial_step_return_finished env c s3 = (o'', s4)"
      by (cases "do_initial_step_return_finished env c s3")
    have l4: "acceleration_live c s4"
      using do_initial_step_live [OF l3, of env] d by simp
    have l5: "acceleration_live c (finalize_solving c (record_call (Info Aborted) s4))"
      using l4 by (intro acceleration_live_finalize_solving) (simp add: acceleration_live_record_call)
    have l6: "acceleration_live c (s4\<lparr>it := it s4 + 1\<rparr>)"
      using l4 by (simp add: acceleration_live_it)
    show ?thesis
      using i Returns d l4 l5 l6
      by (cases o'')
         (auto simp: solve_entry_def Let_def s3_def split: bool.splits)
  qed
qed

lemma deinit_anderson_rows:
  assumes "n \<le> length (previous_vectors t)"
  shows "fold (\<lambda>i u. delete_array (previous_vectors u ! i) u) [0..<n] t
           = t\<lparr>heap := (\<lambda>a. if a \<in> set (take n (previous_vectors t)) then None else heap t a)\<rparr>"
  using assms
proof (induction n)
  case 0
  then show ?case by simp
next
  case (Suc n)
  then have "take (Suc n) (previous_vectors t) = take n (previous_vectors t) @ [previous_vectors t ! n]"
    by (simp add: take_Suc_conv_app_nth)
  then have "(\<lambda>a. if a \<in> set (take n (previous_vectors t)) then None else heap t a)
               (previous_vectors t ! n := None)
             = (\<lambda>a. if a \<in> set (take (Suc n) (previous_vectors t)) then None else heap t a)"
    by (auto simp: fun_eq_iff)
  with Suc show ?case
    by (simp add: delete_array_def)
qed

lemma deinit_anderson_heap:
  assumes "anderson_is_on t" and "length (previous_vectors t) = capacity t"
  shows "heap (deinit_anderson t)
           = (\<lambda>a. if a \<in> set (previous_vectors t) \<or> a = anderson_coeffs t then None
                   else heap t a)"
proof -
  have "fold (\<lambda>i u. delete_array (previous_vectors u ! i) u) [0..<capacity t] t
          = t\<lparr>heap := (\<lambda>a. if a \<in> set (take (capacity t) (previous_vectors t)) then None
                             else heap t a)\<rparr>"
    using assms(2) by (intro deinit_anderson_rows) simp
  then show ?thesis
    using assms by (auto simp: deinit_anderson_def Let_def delete_array_def fun_eq_iff)
qed

lemma solve_live:
  assumes "solve env coeff_vec_arg s = Some (r, t)"
      and "\<forall>c. coeff_vec_arg = Some c \<longrightarrow> c < next_addr s"
      and "anderson_is_on s"
      and "r \<noteq> Throws BadNumLastVectors" and "r \<noteq> Throws NotOkay"
  shows "\<exists>coeff_vec. acceleration_live coeff_vec t"
proof (cases "solve_entry env coeff_vec_arg s")
  case (Inl a)
  with assms(1) have "a = (r, t)"
    by (simp add: solve_def)
  with solve_entry_live [OF assms(3,2), of env] Inl assms(4,5) show ?thesis
    by simp
next
  case (Inr b)
  obtain c s' where b: "b = (c, s')" by (cases b)
  with Inr assms(1) have l: "solve_loop env c s' = Some (r, t)"
    by (simp add: solve_def)
  have "acceleration_live c s'"
    using solve_entry_live [OF assms(3,2), of env] Inr b by simp
  with solve_loop_live_aux [OF l] show ?thesis
    by auto
qed

text \<open>
  C9.  \<^verbatim>\<open>solve\<close> never calls \<^verbatim>\<open>deinit_anderson\<close>: whenever acceleration is enabled and
  \<^verbatim>\<open>solve\<close> ends on any path after its validity check, every row of the history and the
  coefficient array are still allocated, although \<^verbatim>\<open>deinit_anderson\<close> would release
  them.  Without acceleration \<^verbatim>\<open>init_anderson\<close> allocates nothing.
\<close>

theorem history_never_freed:
  assumes "solve env coeff_vec_arg s = Some (r, t)"
      and "\<forall>c. coeff_vec_arg = Some c \<longrightarrow> c < next_addr s"
  shows "(anderson_is_on s \<and> r \<noteq> Throws BadNumLastVectors \<and> r \<noteq> Throws NotOkay \<longrightarrow>
            length (previous_vectors t) = capacity t \<and> 2 \<le> capacity t
            \<and> (\<forall>a \<in> set (previous_vectors t).
                  heap t a \<noteq> None \<and> heap (deinit_anderson t) a = None)
            \<and> heap t (anderson_coeffs t) \<noteq> None
            \<and> heap (deinit_anderson t) (anderson_coeffs t) = None)
         \<and> (\<not> anderson_is_on s \<longrightarrow> init_anderson env s = s)"
proof (intro conjI impI)
  assume a: "anderson_is_on s \<and> r \<noteq> Throws BadNumLastVectors \<and> r \<noteq> Throws NotOkay"
  then obtain c where "acceleration_live c t"
    using solve_live [OF assms] by blast
  then have on: "anderson_is_on t" and rdy: "history_ready t"
    by (simp_all add: acceleration_live_def)
  show l: "length (previous_vectors t) = capacity t"
    using rdy by (simp add: history_ready_def)
  show "2 \<le> capacity t"
    by (rule history_ready_bounds [OF rdy])
  note d = deinit_anderson_heap [OF on l]
  show "\<forall>a \<in> set (previous_vectors t). heap t a \<noteq> None \<and> heap (deinit_anderson t) a = None"
    using rdy rows_allocatedD [of t] by (auto simp: d history_ready_def)
  show "heap t (anderson_coeffs t) \<noteq> None"
    using rdy by (auto simp: history_ready_def coeffs_allocated_def split: option.splits)
  show "heap (deinit_anderson t) (anderson_coeffs t) = None"
    by (simp add: d)
next
  assume "\<not> anderson_is_on s"
  then show "init_anderson env s = s"
    by (simp add: init_anderson_def)
qed

lemma new_vectors_numeral:
  "new_vectors env n (numeral k) s =
     (let (a, s1) = new_array env n s;
          (as, s2) = new_vectors env n (pred_numeral k) s1
      in (a # as, s2))"
  by (simp add: numeral_eq_Suc)

lemmas entry_simps =
  new_vectors_numeral new_array_def capacity_def store_new_vector_def memcpy_def

theorem history_never_freed_witness:
  "(\<exists>t. solve converges_at_once None accelerated = Some (Returns (), t)
       \<and> (\<forall>c. (None :: addr option) = Some c \<longrightarrow> c < next_addr accelerated)
       \<and> anderson_is_on accelerated
       \<and> previous_vectors t = [1, 2, 3] \<and> anderson_coeffs t = 4
       \<and> heap t 0 = None
       \<and> heap t 1 \<noteq> None \<and> heap t 2 \<noteq> None \<and> heap t 3 \<noteq> None \<and> heap t 4 \<noteq> None
       \<and> heap (deinit_anderson t) 1 = None \<and> heap (deinit_anderson t) 4 = None)
   \<and> \<not> anderson_is_on new_solver
   \<and> init_anderson converges_at_once new_solver = new_solver"
proof -
  define d where "d = do_initial_step_return_finished converges_at_once 0
                        (parameter_setup (init_anderson converges_at_once initialised))"
  define t where "t = finalize_solving 0 (record_call (Info Aborted) (snd d))"
  have i: "init_solving converges_at_once None accelerated = (Returns 0, initialised)"
    by (simp add: initialised_def accelerated_def converges_at_once_def scenario_simps init_simps)
  have d1: "fst d = Returns True"
    unfolding d_def
    by (simp add: initialised_def accelerated_def converges_at_once_def scenario_simps
        solve_simps entry_simps)
  then have d2: "d = (Returns True, snd d)"
    by (cases d) simp
  have "solve_entry converges_at_once None accelerated = Inl (Returns (), t)"
    unfolding solve_entry_def i t_def by (simp add: Let_def d_def [symmetric]) (subst d2, simp)
  then have s: "solve converges_at_once None accelerated = Some (Returns (), t)"
    by (simp add: solve_def)
  have "previous_vectors (snd d) = [1, 2, 3]" "anderson_coeffs (snd d) = 4"
    "heap (snd d) 0 = None"
    unfolding d_def
    by (simp_all add: initialised_def accelerated_def converges_at_once_def scenario_simps
        solve_simps entry_simps finalize_solving_eq)
  then have p: "previous_vectors t = [1, 2, 3]" "anderson_coeffs t = 4" "heap t 0 = None"
    by (simp_all add: t_def finalize_solving_eq record_call_def)
  have c: "\<forall>c. (None :: addr option) = Some c \<longrightarrow> c < next_addr accelerated"
    by simp
  have on: "anderson_is_on accelerated" and off: "\<not> anderson_is_on new_solver"
    by (simp_all add: accelerated_def scenario_simps)
  from history_never_freed [OF s c] on p
  have "heap t 1 \<noteq> None \<and> heap t 2 \<noteq> None \<and> heap t 3 \<noteq> None \<and> heap t 4 \<noteq> None
        \<and> heap (deinit_anderson t) 1 = None \<and> heap (deinit_anderson t) 4 = None"
    by simp
  moreover have "solve converges_at_once None new_solver
                   = Some (Returns (), snd (the (solve converges_at_once None new_solver)))"
    by (simp add: solve_def converges_at_once_def scenario_simps solve_simps)
  from history_never_freed [OF this] off
  have "init_anderson converges_at_once new_solver = new_solver"
    by simp
  ultimately show ?thesis
    using s c on off p by blast
qed

section \<open>The history in the course of \<^verbatim>\<open>solve\<close>\<close>

subsection \<open>One linear solve and its push\<close>

lemma spec_coeffs_calculate:
  assumes r: "history_ready s"
      and c: "calculate_anderson_coeffs env s = (Returns (), t)"
  shows "spec_coeffs env (history s) (capacity s) (dimension s)
           = Some (block t (anderson_coeffs t))"
proof (cases "num_last_vectors_used s = 2")
  case True
  then have cap: "capacity s = 2" by (simp add: capacity_def)
  obtain c0 where c0: "heap s (anderson_coeffs s) = Some c0" "length c0 = 1"
    using r cap by (auto simp: history_ready_def coeffs_allocated_def split: option.splits)
  then obtain y where "c0 = [y]"
    by (cases c0) simp_all
  with True c c0 have "block t (anderson_coeffs t) = [1]"
    by (auto simp: calculate_anderson_coeffs_two store_block_def block_def)
  then show ?thesis
    by (simp add: spec_coeffs_def cap)
next
  case False
  have k2: "2 \<le> sint (num_last_vectors_used s)" and ca: "coeffs_allocated s"
    and len: "length (previous_vectors s) = capacity s"
    using r by (simp_all add: history_ready_def)
  from False k2 have k: "3 \<le> sint (num_last_vectors_used s)"
    by (simp add: sint_two_iff)
  then have cap: "capacity s \<noteq> 2" "3 \<le> capacity s"
    by (simp_all add: capacity_def)
  define n where "n = capacity s - 2"
  have n: "n + 1 < length (previous_vectors s)"
    using cap len by (simp add: n_def)
  note spec = anderson_mat_spec [OF n] anderson_rhs_spec [OF n]
  show ?thesis
  proof (cases "ludcmp env (anderson_mat s n) n")
    case None
    with c show ?thesis
      by (simp add: calculate_anderson_coeffs_dense [OF k ca] n_def)
  next
    case (Some a)
    then show ?thesis
      using c spec cap unfolding n_def
      by (cases a)
         (auto simp: calculate_anderson_coeffs_dense [OF k ca] Let_def store_block_def
            block_def record_call_def spec_coeffs_def)
  qed
qed

lemma linear_solves_calculate_anderson_coeffs:
  "linear_solves (snd (calculate_anderson_coeffs env s)) = linear_solves s"
  by (simp add: calculate_anderson_coeffs_def Let_def store_block_def record_call_def
      linear_solves_def split: option.splits prod.splits)

lemma calculate_anderson_coeffs_keeps_solver:
  "matrix_solver_sln_vector (snd (calculate_anderson_coeffs env s)) = matrix_solver_sln_vector s"
  by (subst calculate_anderson_coeffs_frame) simp

lemma handle_previous_vectors_keeps:
  assumes r: "history_ready s" and on: "anderson_is_on s"
  shows "dimension (snd (handle_previous_vectors env s)) = dimension s"
    and "anderson_beta (snd (handle_previous_vectors env s)) = anderson_beta s"
    and "matrix_solver_sln_vector (snd (handle_previous_vectors env s))
           = matrix_solver_sln_vector s"
    and "linear_solves (snd (handle_previous_vectors env s)) = linear_solves s"
proof -
  note r1 = history_ready_store [OF r]
  then have n: "anderson_coeffs (store_new_vector s) \<notin> set (previous_vectors (store_new_vector s))"
    by (simp add: history_ready_def)
  note k = calculate_anderson_coeffs_keeps [OF n, of env]
  note fr = store_new_vector_frame [OF r]
  have m: "matrix_solver_sln_vector (store_new_vector s) = matrix_solver_sln_vector s"
    by (cases "history_full s")
       (simp_all add: store_new_vector_full [OF r] store_new_vector_not_full [OF r])
  have l: "linear_solves (store_new_vector s) = linear_solves s"
    by (simp add: linear_solves_def fr)
  obtain o' t where c: "calculate_anderson_coeffs env (store_new_vector s) = (o', t)"
    by (cases "calculate_anderson_coeffs env (store_new_vector s)")
  then have t: "t = snd (calculate_anderson_coeffs env (store_new_vector s))"
    by simp
  have lt: "linear_solves t = linear_solves s"
    unfolding t by (simp add: linear_solves_calculate_anderson_coeffs l)
  have mt: "matrix_solver_sln_vector t = matrix_solver_sln_vector s"
    unfolding t by (simp add: calculate_anderson_coeffs_keeps_solver m)
  show "dimension (snd (handle_previous_vectors env s)) = dimension s"
    using c k(4) unfolding t [symmetric]
    by (cases o') (simp_all add: handle_previous_vectors_on [OF on] mix_vectors_def fr)
  show "anderson_beta (snd (handle_previous_vectors env s)) = anderson_beta s"
    using c k(7) unfolding t [symmetric]
    by (cases o') (simp_all add: handle_previous_vectors_on [OF on] mix_vectors_def fr)
  show "matrix_solver_sln_vector (snd (handle_previous_vectors env s))
           = matrix_solver_sln_vector s"
    using c mt m
    by (cases o') (simp_all add: handle_previous_vectors_on [OF on] mix_vectors_def)
  show "linear_solves (snd (handle_previous_vectors env s)) = linear_solves s"
    using c lt l
    by (cases o') (simp_all add: handle_previous_vectors_on [OF on] mix_vectors_def
        linear_solves_def)
qed

text \<open>The state in which the new iterate is handed to the history.\<close>

lemma linear_solve_state:
  assumes live: "acceleration_live c s"
  shows "acceleration_live c (calculate_error (solve_linear_system env c s))"
    and "sln_vector (calculate_error (solve_linear_system env c s))
           = solve_result (calculate_error (solve_linear_system env c s))"
    and "history (calculate_error (solve_linear_system env c s)) = history s"
    and "vec_in_memory (calculate_error (solve_linear_system env c s)) = vec_in_memory s"
    and "linear_solves (calculate_error (solve_linear_system env c s)) = Suc (linear_solves s)"
    and "dimension (calculate_error (solve_linear_system env c s)) = dimension s"
    and "capacity (calculate_error (solve_linear_system env c s)) = capacity s"
    and "anderson_beta (calculate_error (solve_linear_system env c s)) = anderson_beta s"
proof -
  define s1 where "s1 = solve_linear_system env c s"
  have l: "length (sln_vector s) = dimension s"
    using live by (simp add: acceleration_live_def history_ready_def)
  show "acceleration_live c (calculate_error (solve_linear_system env c s))"
    using live
    by (simp add: acceleration_live_calculate_error acceleration_live_solve_linear_system)
  have f1: "sln_vector s1 = sln_vector s" "dimension s1 = dimension s" "heap s1 = heap s"
      "previous_vectors s1 = previous_vectors s" "vec_in_memory s1 = vec_in_memory s"
      "num_last_vectors_used s1 = num_last_vectors_used s" "anderson_beta s1 = anderson_beta s"
    by (simp_all add: s1_def solve_linear_system_def Let_def record_call_def)
  have "memcpy (sln_vector s1) (matrix_solver_sln_vector s1) (dimension s1)
          = map (matrix_solver_sln_vector s1) [0..<dimension s1]"
    using l by (simp add: memcpy_def f1)
  then show "sln_vector (calculate_error (solve_linear_system env c s))
           = solve_result (calculate_error (solve_linear_system env c s))"
    by (simp add: calculate_error_def Let_def solve_result_def s1_def [symmetric])
  show "history (calculate_error (solve_linear_system env c s)) = history s"
    by (simp add: calculate_error_def Let_def history_def block_def s1_def [symmetric] f1)
  show "vec_in_memory (calculate_error (solve_linear_system env c s)) = vec_in_memory s"
    by (simp add: calculate_error_def Let_def s1_def [symmetric] f1)
  show "linear_solves (calculate_error (solve_linear_system env c s)) = Suc (linear_solves s)"
    by (simp add: calculate_error_def solve_linear_system_def Let_def record_call_def
        linear_solves_def)
  show "dimension (calculate_error (solve_linear_system env c s)) = dimension s"
    by (simp add: calculate_error_def Let_def s1_def [symmetric] f1)
  show "capacity (calculate_error (solve_linear_system env c s)) = capacity s"
    by (simp add: calculate_error_def Let_def capacity_def s1_def [symmetric] f1)
  show "anderson_beta (calculate_error (solve_linear_system env c s)) = anderson_beta s"
    by (simp add: calculate_error_def Let_def s1_def [symmetric] f1)
qed


lemma window_cong:
  assumes "history t = history s" and "vec_in_memory t = vec_in_memory s"
  shows "window t = window s"
  using assms by (simp add: window_def)

lemma length_window:
  assumes "history_ready s"
  shows "length (window s) = unat (vec_in_memory s)"
  using history_ready_bounds [OF assms] length_history [OF assms] by (simp add: window_def)

text \<open>
  A linear solve whose result \<^verbatim>\<open>handle_previous_vectors\<close> stores while the history is
  not yet full.
\<close>

lemma push_linear_solve:
  assumes live: "acceleration_live c s"
      and nf: "unat (vec_in_memory s) < capacity s"
      and h: "handle_previous_vectors env (calculate_error (solve_linear_system env c s))
                = (Returns (), u)"
  shows "acceleration_live c u"
    and "unat (vec_in_memory u) = Suc (unat (vec_in_memory s))"
    and "window u = window s @ [solve_result u]"
    and "linear_solves u = Suc (linear_solves s)"
    and "dimension u = dimension s"
    and "capacity u = capacity s"
    and "anderson_beta u = anderson_beta s"
    and "Suc (unat (vec_in_memory s)) < capacity s \<longrightarrow> sln_vector u = solve_result u"
    and "Suc (unat (vec_in_memory s)) = capacity s \<longrightarrow>
           spec_coeffs env (history u) (capacity s) (dimension s)
             = Some (block u (anderson_coeffs u))
           \<and> (\<forall>i < dimension s.
                 sln_vector u ! i
                   = spec_mixed (history u) (block u (anderson_coeffs u)) (anderson_beta s)
                       (capacity s) i)"
proof -
  define s2 where "s2 = calculate_error (solve_linear_system env c s)"
  note ls = linear_solve_state [OF live, of env, folded s2_def]
  have r2: "history_ready s2" and on2: "anderson_is_on s2"
    using ls(1) by (simp_all add: acceleration_live_def)
  have u: "u = snd (handle_previous_vectors env s2)"
    using h by (simp add: s2_def)
  have h2: "handle_previous_vectors env s2 = (Returns (), u)"
    using h by (simp add: s2_def)
  show live_u: "acceleration_live c u"
    using acceleration_live_handle_previous_vectors [OF ls(1), of env] by (simp add: u)
  then have ru: "history_ready u"
    by (simp add: acceleration_live_def)
  note hf = handle_previous_vectors_frame [OF r2 on2, of env, folded u]
  note kp = handle_previous_vectors_keeps [OF r2 on2, of env, folded u]
  note r3 = history_ready_store [OF r2]
  note fr = store_new_vector_frame [OF r2]
  have v3: "unat (vec_in_memory (store_new_vector s2)) = Suc (unat (vec_in_memory s))"
    using vec_in_memory_store [OF r2] nf by (simp add: ls)
  show vu: "unat (vec_in_memory u) = Suc (unat (vec_in_memory s))"
    by (simp add: hf v3)
  show du: "dimension u = dimension s"
    by (simp add: kp ls)
  show cu: "capacity u = capacity s"
    using ls(7) by (simp add: capacity_def hf)
  show "anderson_beta u = anderson_beta s"
    by (simp add: kp ls)
  show "linear_solves u = Suc (linear_solves s)"
    by (simp add: kp ls)
  have sr: "solve_result u = sln_vector s2"
    by (simp add: ls(2)) (simp add: solve_result_def kp)
  have "window (store_new_vector s2) = window s2 @ [sln_vector s2]"
    using window_store [OF r2] nf by (simp add: ls)
  moreover have "window u = window (store_new_vector s2)"
    by (rule window_cong) (simp_all add: hf)
  moreover have "window s2 = window s"
    by (rule window_cong) (simp_all add: ls)
  ultimately show "window u = window s @ [solve_result u]"
    by (simp add: sr)
  show "Suc (unat (vec_in_memory s)) < capacity s \<longrightarrow> sln_vector u = solve_result u"
  proof
    assume "Suc (unat (vec_in_memory s)) < capacity s"
    then have "\<not> history_full (store_new_vector s2)"
      using history_full_iff [OF r3] v3 by (simp add: fr ls)
    then have "u = store_new_vector s2"
      using h2 by (simp add: handle_previous_vectors_on [OF on2])
    then have "sln_vector u = sln_vector s2"
      by (simp add: fr)
    then show "sln_vector u = solve_result u"
      by (simp only: sr)
  qed
  show "Suc (unat (vec_in_memory s)) = capacity s \<longrightarrow>
           spec_coeffs env (history u) (capacity s) (dimension s)
             = Some (block u (anderson_coeffs u))
           \<and> (\<forall>i < dimension s.
                 sln_vector u ! i
                   = spec_mixed (history u) (block u (anderson_coeffs u)) (anderson_beta s)
                       (capacity s) i)"
  proof
    assume full: "Suc (unat (vec_in_memory s)) = capacity s"
    then have f3: "history_full (store_new_vector s2)"
      using history_full_iff [OF r3] v3 by (simp add: fr ls)
    have fu: "history_full u"
      using history_full_iff [OF ru] vu cu full by simp
    from handle_previous_vectors_returns [OF on2 h2] f3 obtain t where
      c: "calculate_anderson_coeffs env (store_new_vector s2) = (Returns (), t)"
      by blast
    note e = handle_previous_vectors_full [OF r2 on2 f3 c]
    have ut: "u = t\<lparr>sln_vector :=
                  map (spec_mixed (history t) (block t (anderson_coeffs t)) (anderson_beta t)
                         (capacity t))
                    [0..<dimension t]\<rparr>"
      using e(1) h2 by simp
    have "block u (anderson_coeffs u) = block t (anderson_coeffs t)"
      by (simp add: ut block_sln_vector)
    moreover have "spec_coeffs env (history (store_new_vector s2))
        (capacity (store_new_vector s2)) (dimension (store_new_vector s2))
           = Some (block t (anderson_coeffs t))"
      using r3 c by (rule spec_coeffs_calculate)
    ultimately have "spec_coeffs env (history u) (capacity s) (dimension s)
             = Some (block u (anderson_coeffs u))"
      by (simp add: hf fr ls)
    moreover have "sln_vector u ! i
                   = spec_mixed (history u) (block u (anderson_coeffs u)) (anderson_beta s)
                       (capacity s) i"
      if "i < dimension s" for i
      using handle_previous_vectors_mixed [OF r2 on2 h2 fu, of i] that by (simp add: ls)
    ultimately show "spec_coeffs env (history u) (capacity s) (dimension s)
             = Some (block u (anderson_coeffs u))
           \<and> (\<forall>i < dimension s.
                 sln_vector u ! i
                   = spec_mixed (history u) (block u (anderson_coeffs u)) (anderson_beta s)
                       (capacity s) i)"
      by blast
  qed
qed

text \<open>The rest of a pass leaves the history, the coefficients and the solution vector alone.\<close>

lemma pass_end_frame:
  assumes live: "acceleration_live c u"
      and t: "t = store_block c v ((step_info u)\<lparr>it := i\<rparr>)"
  shows "acceleration_live c t"
    and "history t = history u"
    and "vec_in_memory t = vec_in_memory u"
    and "window t = window u"
    and "sln_vector t = sln_vector u"
    and "block t (anderson_coeffs t) = block u (anderson_coeffs u)"
    and "linear_solves t = linear_solves u"
    and "dimension t = dimension u"
    and "capacity t = capacity u"
    and "anderson_beta t = anderson_beta u"
    and "solve_result t = solve_result u"
proof -
  have n: "c \<notin> set (previous_vectors u)" "c \<noteq> anderson_coeffs u"
    using live by (simp_all add: acceleration_live_def)
  show "acceleration_live c t"
    unfolding t using live
    by (intro acceleration_live_store_coeff_vec)
       (simp add: acceleration_live_it step_info_def acceleration_live_record_call)
  show h: "history t = history u"
    using n by (auto simp: t history_def block_def store_block_def step_info_def record_call_def)
  show v: "vec_in_memory t = vec_in_memory u"
    by (simp add: t store_block_def step_info_def record_call_def)
  show "window t = window u"
    using h v by (rule window_cong)
  show "sln_vector t = sln_vector u"
    by (simp add: t store_block_def step_info_def record_call_def)
  show "block t (anderson_coeffs t) = block u (anderson_coeffs u)"
    using n by (simp add: t block_def store_block_def step_info_def record_call_def)
  show "linear_solves t = linear_solves u"
    by (simp add: t store_block_def step_info_def record_call_def linear_solves_def)
  show "dimension t = dimension u"
    by (simp add: t store_block_def step_info_def record_call_def)
  show "capacity t = capacity u"
    by (simp add: t store_block_def step_info_def record_call_def capacity_def)
  show "anderson_beta t = anderson_beta u"
    by (simp add: t store_block_def step_info_def record_call_def)
  show "solve_result t = solve_result u"
    by (simp add: t store_block_def step_info_def record_call_def solve_result_def)
qed


lemma block_solution_norms:
  "block (s\<lparr>solution_norms := x\<rparr>) = block s"
  by (rule ext) (simp add: block_def)

lemma acceleration_live_norms:
  "acceleration_live c (s\<lparr>solution_norms := x\<rparr>) = acceleration_live c s"
proof -
  have "history_ready (s\<lparr>solution_norms := x\<rparr>) = history_ready s"
    by (rule history_ready_cong) simp_all
  then show ?thesis
    by (simp add: acceleration_live_def)
qed

lemma entry_state:
  assumes init: "init_solving env coeff_vec_arg s_in = (Returns c, s)"
      and on: "anderson_is_on s_in"
      and cv: "\<forall>a. coeff_vec_arg = Some a \<longrightarrow> a < next_addr s_in"
  shows "acceleration_live c (parameter_setup (init_anderson env s))"
    and "window (parameter_setup (init_anderson env s)) = [sln_vector s]"
    and "history (parameter_setup (init_anderson env s)) ! 0 = sln_vector s"
    and "vec_in_memory (parameter_setup (init_anderson env s)) = 1"
    and "linear_solves (parameter_setup (init_anderson env s)) = linear_solves s_in"
    and "dimension (parameter_setup (init_anderson env s)) = dimension s"
    and "capacity (parameter_setup (init_anderson env s)) = capacity s"
    and "anderson_beta (parameter_setup (init_anderson env s)) = anderson_beta s"
proof -
  note r = init_solving_returns [OF init]
  have on1: "anderson_is_on s"
    using on r(3) by simp
  have lt: "c < next_addr s"
    using init cv by (rule init_solving_coeff_vec)
  note a = init_anderson_ready [OF on1 r(1,2), of env]
  note e = init_anderson_eq [OF on1 r(1,2), of env]
  show "acceleration_live c (parameter_setup (init_anderson env s))"
    using a(1) on1 lt
    by (simp add: acceleration_live_def) (simp add: e parameter_setup_def)
  show "window (parameter_setup (init_anderson env s)) = [sln_vector s]"
    by (rule a)
  show "history (parameter_setup (init_anderson env s)) ! 0 = sln_vector s"
    by (rule a)
  show "vec_in_memory (parameter_setup (init_anderson env s)) = 1"
    by (rule a)
  have "linear_solves s = linear_solves s_in"
    using init
    by (auto simp: init_solving_def Let_def calloc_def record_call_def linear_solves_def
        split: outcome.splits option.splits)
  then show "linear_solves (parameter_setup (init_anderson env s)) = linear_solves s_in"
    by (simp add: linear_solves_def parameter_setup_def calls_init_anderson)
  show "dimension (parameter_setup (init_anderson env s)) = dimension s"
    by (simp add: e parameter_setup_def)
  show "capacity (parameter_setup (init_anderson env s)) = capacity s"
    by (simp add: e parameter_setup_def capacity_def)
  show "anderson_beta (parameter_setup (init_anderson env s)) = anderson_beta s"
    by (simp add: e parameter_setup_def)
qed

lemma do_initial_step_continues_state:
  assumes "do_initial_step_return_finished env c s = (Returns False, s')"
  shows "\<exists>u. handle_previous_vectors env
                (calculate_error (solve_linear_system env c
                   (s\<lparr>solution_norms :=
                        solution_norms s @ [get_l2_norm ((!) (block s c)) (dimension s)]\<rparr>)))
              = (Returns (), u)
           \<and> s' = store_block c
                     (memcpy (block (step_info u) c) ((!) (sln_vector (step_info u)))
                        (dimension (step_info u)))
                     (step_info u)"
proof -
  define s1 where "s1 = s\<lparr>solution_norms :=
      solution_norms s @ [get_l2_norm ((!) (block s c)) (dimension s)]\<rparr>"
  obtain o' u where h: "handle_previous_vectors env
      (calculate_error (solve_linear_system env c s1)) = (o', u)"
    by (cases "handle_previous_vectors env (calculate_error (solve_linear_system env c s1))")
  define u6 where "u6 = store_block c
      (memcpy (block (step_info u) c) ((!) (sln_vector (step_info u)))
         (dimension (step_info u))) (step_info u)"
  obtain o'' u' where cs: "handle_convergence_state_return_finished
      (get_convergence_state env u6) c u6 = (o'', u')"
    by (cases "handle_convergence_state_return_finished (get_convergence_state env u6) c u6")
  have o': "o' = Returns ()"
    using assms h
    by (cases o') (simp_all add: do_initial_step_return_finished_def Let_def s1_def)
  have o'': "o'' = Returns False"
    using assms h cs o'
    by (cases o'')
       (auto simp: do_initial_step_return_finished_def Let_def s1_def u6_def split: bool.splits)
  then have n: "u' = u6"
    using cs handle_convergence_state_continue by blast
  have "s' = u6"
    using assms h cs o' o'' n
    by (auto simp: do_initial_step_return_finished_def Let_def s1_def u6_def)
  with h o' show ?thesis
    unfolding s1_def u6_def by blast
qed

lemma loop_state_split:
  assumes "loop_state env c n s = Some t" and "j \<le> n"
  shows "\<exists>u. loop_state env c j s = Some u \<and> loop_state env c (n - j) u = Some t"
  using assms
proof (induction n arbitrary: t)
  case 0
  then show ?case by simp
next
  case (Suc n)
  then obtain t' where t': "loop_state env c n s = Some t'"
      "solve_loop_body env c t' = Inr t"
    by (auto split: option.splits sum.splits)
  show ?case
  proof (cases "j = Suc n")
    case True
    with Suc.prems(1) show ?thesis by simp
  next
    case False
    with Suc.prems(2) have j: "j \<le> n" by simp
    from Suc.IH [OF t'(1) j] obtain u where
      u: "loop_state env c j s = Some u" "loop_state env c (n - j) u = Some t'"
      by blast
    have "Suc n - j = Suc (n - j)"
      using j by simp
    with u t'(2) show ?thesis by simp
  qed
qed

lemma loop_state_window:
  assumes "loop_state env c n s = Some t"
      and "acceleration_live c s"
      and "unat (vec_in_memory s) + n \<le> capacity s"
  shows "acceleration_live c t
         \<and> unat (vec_in_memory t) = unat (vec_in_memory s) + n
         \<and> take (unat (vec_in_memory s)) (window t) = window s
         \<and> linear_solves t = linear_solves s + n
         \<and> dimension t = dimension s \<and> capacity t = capacity s
         \<and> anderson_beta t = anderson_beta s
         \<and> (0 < n \<longrightarrow>
              last (window t) = solve_result t
              \<and> (unat (vec_in_memory t) < capacity s \<longrightarrow> sln_vector t = solve_result t)
              \<and> (unat (vec_in_memory t) = capacity s \<longrightarrow>
                   spec_coeffs env (history t) (capacity s) (dimension s)
                     = Some (block t (anderson_coeffs t))
                   \<and> (\<forall>i < dimension s.
                         sln_vector t ! i
                           = spec_mixed (history t) (block t (anderson_coeffs t))
                               (anderson_beta s) (capacity s) i)))"
  using assms
proof (induction n arbitrary: t)
  case 0
  then have "history_ready s"
    by (simp add: acceleration_live_def)
  then have "length (window s) = unat (vec_in_memory s)"
    by (rule length_window)
  with 0 show ?case by simp
next
  case (Suc n)
  then obtain t' where t': "loop_state env c n s = Some t'"
      "solve_loop_body env c t' = Inr t"
    by (auto split: option.splits sum.splits)
  have le: "unat (vec_in_memory s) + n \<le> capacity s"
    using Suc.prems(3) by simp
  note ih = Suc.IH [OF t'(1) Suc.prems(2) le]
  have live': "acceleration_live c t'"
    using ih by simp
  have nf: "unat (vec_in_memory t') < capacity t'"
    using ih Suc.prems(3) by simp
  from solve_loop_body_continues [OF t'(2)] obtain u where
    h: "handle_previous_vectors env (calculate_error (solve_linear_system env c t'))
          = (Returns (), u)"
    and t: "t = store_block c
                  (memcpy (block (step_info u) c) ((!) (sln_vector (step_info u)))
                     (dimension (step_info u)))
                  ((step_info u)\<lparr>it := it (step_info u) + 1\<rparr>)"
    by blast
  note p = push_linear_solve [OF live' nf h]
  note e = pass_end_frame [OF p(1) t]
  have lw: "length (window t') = unat (vec_in_memory t')"
    using live' by (intro length_window) (simp add: acceleration_live_def)
  have c': "capacity t' = capacity s" "dimension t' = dimension s"
      "anderson_beta t' = anderson_beta s"
    using ih by simp_all
  have v: "unat (vec_in_memory t) = unat (vec_in_memory s) + Suc n"
    using ih by (simp add: e p)
  have w: "window t = window t' @ [solve_result t]"
    by (simp add: e p)
  have "take (unat (vec_in_memory s)) (window t) = window s"
    using ih lw by (simp add: w)
  moreover have "linear_solves t = linear_solves s + Suc n"
    using ih by (simp add: e p)
  moreover have "last (window t) = solve_result t"
    by (simp add: w)
  moreover have "unat (vec_in_memory t) < capacity s \<longrightarrow> sln_vector t = solve_result t"
    using p(8) by (simp add: e p c')
  moreover have "unat (vec_in_memory t) = capacity s \<longrightarrow>
                   spec_coeffs env (history t) (capacity s) (dimension s)
                     = Some (block t (anderson_coeffs t))
                   \<and> (\<forall>i < dimension s.
                         sln_vector t ! i
                           = spec_mixed (history t) (block t (anderson_coeffs t))
                               (anderson_beta s) (capacity s) i)"
    using p(9) by (simp add: e p c')
  ultimately show ?case
    using e(1) v by (simp add: e p c')
qed

text \<open>
  C10.  With acceleration enabled the history is pre-populated when \<^verbatim>\<open>solve\<close> starts:
  after \<^verbatim>\<open>init_solving\<close>, \<^verbatim>\<open>init_anderson\<close> and the parameter setup, history entry 0 is the
  initial iterate and the occupancy counter is one.  In a run of \<^verbatim>\<open>solve\<close> whose initial
  step and n further passes of the loop go on, with n + 2 at most the capacity k, the state
  \<open>t\<close> after these passes is one that \<^verbatim>\<open>solve\<close> passes through; n + 1 linear solves have been
  made and the counter is n + 2; entry 0 of the history is still the initial iterate and
  entry j + 1 is the result of the linear solve number j + 1, so the first result is
  entry 1.  The history is full exactly when n + 1 = k - 1 linear solves have been made.
  Before that the solution vector is the raw result of the last linear solve.  When the
  history has become full, the coefficients are those of the specification for this
  history, whose entry 0 is the initial iterate, and the solution vector is the mixed
  vector of this history with these coefficients.  The initial iterate is not a term of
  that mix unless the damping differs from one: otherwise it enters through the
  coefficients alone, and with a capacity of two and a damping of one the first mixed
  vector is the result of the first linear solve unchanged.
\<close>

theorem history_prepopulated:
  assumes "init_solving env coeff_vec_arg s_in = (Returns coeff_vec, s)"
      and "anderson_is_on s_in"
      and "\<forall>c. coeff_vec_arg = Some c \<longrightarrow> c < next_addr s_in"
      and "do_initial_step_return_finished env coeff_vec
             (parameter_setup (init_anderson env s)) = (Returns False, s1)"
      and "loop_state env coeff_vec n (s1\<lparr>it := it s1 + 1\<rparr>) = Some t"
      and "n + 2 \<le> capacity s"
  shows "history (parameter_setup (init_anderson env s)) ! 0 = sln_vector s
         \<and> vec_in_memory (parameter_setup (init_anderson env s)) = 1
         \<and> solve env coeff_vec_arg s_in = solve_loop env coeff_vec t
         \<and> linear_solves t = linear_solves s_in + (n + 1)
         \<and> unat (vec_in_memory t) = n + 2
         \<and> (history_full t \<longleftrightarrow> n + 2 = capacity s)
         \<and> history t ! 0 = sln_vector s
         \<and> (\<forall>j \<le> n. \<forall>u. loop_state env coeff_vec j (s1\<lparr>it := it s1 + 1\<rparr>) = Some u \<longrightarrow>
                history t ! (j + 1) = solve_result u)
         \<and> (n + 2 < capacity s \<longrightarrow> sln_vector t = solve_result t)
         \<and> (n + 2 = capacity s \<longrightarrow>
              spec_coeffs env (history t) (capacity s) (dimension s)
                = Some (block t (anderson_coeffs t))
              \<and> (\<forall>i < dimension s.
                    sln_vector t ! i
                      = spec_mixed (history t) (block t (anderson_coeffs t)) (anderson_beta s)
                          (capacity s) i))
         \<and> (capacity s = 2 \<and> anderson_beta s = 1 \<longrightarrow> sln_vector t = solve_result t)"
proof -
  define s3 where "s3 = parameter_setup (init_anderson env s)"
  define s3' where "s3' = s3\<lparr>solution_norms :=
      solution_norms s3 @ [get_l2_norm ((!) (block s3 coeff_vec)) (dimension s3)]\<rparr>"
  define u0 where "u0 = s1\<lparr>it := it s1 + 1\<rparr>"
  note en = entry_state [OF assms(1,2,3), folded s3_def]
  have live3: "acceleration_live coeff_vec s3'"
    using en(1) by (simp add: s3'_def acceleration_live_norms)
  have f3: "window s3' = window s3" "vec_in_memory s3' = vec_in_memory s3"
      "linear_solves s3' = linear_solves s3" "dimension s3' = dimension s3"
      "capacity s3' = capacity s3" "anderson_beta s3' = anderson_beta s3"
    by (simp_all add: s3'_def window_def history_def block_solution_norms linear_solves_def
        capacity_def)
  have v3: "unat (vec_in_memory s3') = 1"
    by (simp add: f3 en)
  have nf3: "unat (vec_in_memory s3') < capacity s3'"
    using assms(6) by (simp add: v3 f3 en)
  from do_initial_step_continues_state [OF assms(4) [folded s3_def]] obtain u where
    h: "handle_previous_vectors env (calculate_error (solve_linear_system env coeff_vec s3'))
          = (Returns (), u)"
    and s1: "s1 = store_block coeff_vec
                    (memcpy (block (step_info u) coeff_vec) ((!) (sln_vector (step_info u)))
                       (dimension (step_info u)))
                    (step_info u)"
    unfolding s3'_def by blast
  have u0: "u0 = store_block coeff_vec
                    (memcpy (block (step_info u) coeff_vec) ((!) (sln_vector (step_info u)))
                       (dimension (step_info u)))
                    ((step_info u)\<lparr>it := it (step_info u) + 1\<rparr>)"
    by (simp add: u0_def s1 store_block_def)
  note p = push_linear_solve [OF live3 nf3 h]
  note e = pass_end_frame [OF p(1) u0]
  have c0: "capacity u0 = capacity s" "dimension u0 = dimension s"
      "anderson_beta u0 = anderson_beta s"
    by (simp_all add: e p f3 en)
  have v0: "unat (vec_in_memory u0) = 2"
    by (simp add: e p v3)
  have w0: "window u0 = [sln_vector s, solve_result u0]"
    by (simp add: e p f3 en)
  have l0: "linear_solves u0 = linear_solves s_in + 1"
    by (simp add: e p f3 en)
  have raw0: "2 < capacity s \<longrightarrow> sln_vector u0 = solve_result u0"
    using p(8) by (simp add: e p v3 f3 en)
  have mix0: "2 = capacity s \<longrightarrow>
                spec_coeffs env (history u0) (capacity s) (dimension s)
                  = Some (block u0 (anderson_coeffs u0))
                \<and> (\<forall>i < dimension s.
                      sln_vector u0 ! i
                        = spec_mixed (history u0) (block u0 (anderson_coeffs u0))
                            (anderson_beta s) (capacity s) i)"
  proof
    assume "2 = capacity s"
    then have "Suc (unat (vec_in_memory s3')) = capacity s3'"
      by (simp add: v3 f3 en)
    with p(9) have "spec_coeffs env (history u) (capacity s3') (dimension s3')
                      = Some (block u (anderson_coeffs u))
                    \<and> (\<forall>i < dimension s3'.
                          sln_vector u ! i
                            = spec_mixed (history u) (block u (anderson_coeffs u))
                                (anderson_beta s3') (capacity s3') i)"
      by blast
    then show "spec_coeffs env (history u0) (capacity s) (dimension s)
                  = Some (block u0 (anderson_coeffs u0))
                \<and> (\<forall>i < dimension s.
                      sln_vector u0 ! i
                        = spec_mixed (history u0) (block u0 (anderson_coeffs u0))
                            (anderson_beta s) (capacity s) i)"
      by (simp add: e f3 en)
  qed
  have loop: "loop_state env coeff_vec n u0 = Some t"
    using assms(5) by (simp add: u0_def)
  have le: "unat (vec_in_memory u0) + n \<le> capacity u0"
    using assms(6) by (simp add: v0 c0)
  note lw = loop_state_window [OF loop e(1) le, unfolded v0 c0 w0 l0]
  have rt: "history_ready t"
    using lw by (simp add: acceleration_live_def)
  have vt: "unat (vec_in_memory t) = n + 2"
    using lw by simp
  have wt: "take 2 (window t) = [sln_vector s, solve_result u0]"
    using lw by simp
  have ht: "history t ! i = window t ! i" if "i < n + 2" for i
    using that by (simp add: window_def vt)
  have entry: "solve_entry env coeff_vec_arg s_in = Inr (coeff_vec, u0)"
    using assms(1,4) by (simp add: solve_entry_def Let_def u0_def)
  have run: "solve env coeff_vec_arg s_in = solve_loop env coeff_vec t"
    using entry solve_loop_loop_state [OF loop] by (simp add: solve_def)
  have full: "history_full t \<longleftrightarrow> n + 2 = capacity s"
    using history_full_iff [OF rt] lw by (simp add: vt)
  have first: "history t ! 0 = sln_vector s"
  proof -
    have "window t ! 0 = take 2 (window t) ! 0" by simp
    then show ?thesis by (simp add: ht wt)
  qed
  have entries: "history t ! (j + 1) = solve_result u"
    if j: "j \<le> n" and u: "loop_state env coeff_vec j u0 = Some u" for j u
  proof -
    from loop_state_split [OF loop j] u have rest: "loop_state env coeff_vec (n - j) u = Some t"
      by simp
    have lej: "unat (vec_in_memory u0) + j \<le> capacity u0"
      using j le by simp
    note a = loop_state_window [OF u e(1) lej, unfolded v0 c0 w0 l0]
    have liveu: "acceleration_live coeff_vec u" and vu: "unat (vec_in_memory u) = j + 2"
      and cu: "capacity u = capacity s"
      using a by simp_all
    have lu: "length (window u) = j + 2"
      using liveu vu by (simp add: length_window acceleration_live_def)
    have newest: "window u ! (j + 1) = solve_result u"
    proof (cases "j = 0")
      case True
      with u have "u = u0" by simp
      then show ?thesis using True by (simp add: w0)
    next
      case False
      then have "last (window u) = solve_result u"
        using a by simp
      moreover have "window u \<noteq> []"
        using lu by auto
      ultimately show ?thesis
        using lu by (simp add: last_conv_nth)
    qed
    have "unat (vec_in_memory u) + (n - j) \<le> capacity u"
      using j assms(6) by (simp add: vu cu)
    from loop_state_window [OF rest liveu this]
    have "take (j + 2) (window t) = window u"
      by (simp add: vu)
    then have "window t ! (j + 1) = window u ! (j + 1)"
      by (metis add_less_cancel_left nth_take one_less_numeral_iff semiring_norm(76))
    with newest show ?thesis
      using j by (simp add: ht)
  qed
  have raw: "n + 2 < capacity s \<longrightarrow> sln_vector t = solve_result t"
  proof (cases "n = 0")
    case True
    with loop have "t = u0" by simp
    with raw0 True show ?thesis by simp
  next
    case False
    then show ?thesis
      using lw by (simp add: vt)
  qed
  have mix: "n + 2 = capacity s \<longrightarrow>
              spec_coeffs env (history t) (capacity s) (dimension s)
                = Some (block t (anderson_coeffs t))
              \<and> (\<forall>i < dimension s.
                    sln_vector t ! i
                      = spec_mixed (history t) (block t (anderson_coeffs t)) (anderson_beta s)
                          (capacity s) i)"
    (is "?A \<longrightarrow> ?M")
  proof (cases "n = 0")
    case True
    with loop have tu: "t = u0" by simp
    show ?thesis
    proof
      assume ?A
      with True have "2 = capacity s" by simp
      with mix0 show ?M unfolding tu by blast
    qed
  next
    case False
    then show ?thesis
      using lw by (simp add: vt)
  qed
  have ls: "linear_solves t = linear_solves s_in + (n + 1)"
    using lw by simp
  have plain: "sln_vector t = solve_result t" if k: "capacity s = 2" and b: "anderson_beta s = 1"
  proof (rule nth_equalityI)
    have dt: "dimension t = dimension s"
      using lw by simp
    show "length (sln_vector t) = length (solve_result t)"
      using rt by (simp add: history_ready_def solve_result_def)
    fix i
    assume "i < length (sln_vector t)"
    then have i: "i < dimension s"
      using rt by (simp add: history_ready_def dt)
    from k assms(6) have n: "n = 0" by simp
    with loop have "loop_state env coeff_vec 0 u0 = Some t" by simp
    then have h1: "history t ! 1 = solve_result t"
      using entries [of 0 t] by simp
    from mix k n have "spec_coeffs env (history t) 2 (dimension s)
                         = Some (block t (anderson_coeffs t))"
      and "sln_vector t ! i
             = spec_mixed (history t) (block t (anderson_coeffs t)) (anderson_beta s) 2 i"
      using i by simp_all
    then have "sln_vector t ! i = spec_mixed (history t) [1] 1 2 i"
      by (simp add: spec_coeffs_def b)
    then show "sln_vector t ! i = solve_result t ! i"
      using h1 by (simp add: spec_mixed_def)
  qed
  from en(3,4) run ls vt full first entries raw mix plain show ?thesis
    unfolding s3_def u0_def by blast
qed

lemmas pass_simps =
  solve_loop_body_def solve_linear_system_def calculate_error_def handle_simps
  anderson_simps step_info_def handle_convergence_state_return_finished_def get_l2_norm_def

theorem history_prepopulated_witness:
  "init_solving plain None accelerated = (Returns 0, initialised)
   \<and> anderson_is_on accelerated
   \<and> sln_vector initialised = [0]
   \<and> capacity initialised = 3
   \<and> (\<exists>s1 t.
         (\<forall>c. (None :: addr option) = Some c \<longrightarrow> c < next_addr accelerated)
         \<and> do_initial_step_return_finished plain 0
              (parameter_setup (init_anderson plain initialised)) = (Returns False, s1)
         \<and> loop_state plain 0 0 (s1\<lparr>it := it s1 + 1\<rparr>) = Some (s1\<lparr>it := it s1 + 1\<rparr>)
         \<and> loop_state plain 0 1 (s1\<lparr>it := it s1 + 1\<rparr>) = Some t
         \<and> \<not> history_full (s1\<lparr>it := it s1 + 1\<rparr>)
         \<and> solve_result (s1\<lparr>it := it s1 + 1\<rparr>) = [5]
         \<and> sln_vector (s1\<lparr>it := it s1 + 1\<rparr>) = [5]
         \<and> solve plain None accelerated = solve_loop plain 0 t
         \<and> linear_solves t = 2
         \<and> history_full t
         \<and> history t = [[0], [5], [15 / 2]]
         \<and> block t (anderson_coeffs t) = [- 1, 2]
         \<and> spec_coeffs plain [[0], [5], [15 / 2]] 3 1 = Some [- 1, 2]
         \<and> sln_vector t ! 0 = spec_mixed [[0], [5], [15 / 2]] [- 1, 2] 1 3 0
         \<and> sln_vector t = [10])
   \<and> init_solving plain (Some 0) guess_four = (Returns 0, initialised_four)
   \<and> anderson_is_on guess_four
   \<and> (\<exists>s1. (\<forall>c. Some (0 :: addr) = Some c \<longrightarrow> c < next_addr guess_four)
         \<and> do_initial_step_return_finished plain 0
              (parameter_setup (init_anderson plain initialised_four)) = (Returns False, s1)
         \<and> loop_state plain 0 0 (s1\<lparr>it := it s1 + 1\<rparr>) = Some (s1\<lparr>it := it s1 + 1\<rparr>)
         \<and> capacity initialised_four = 2 \<and> anderson_beta initialised_four = 1
         \<and> history_full (s1\<lparr>it := it s1 + 1\<rparr>)
         \<and> solve_result (s1\<lparr>it := it s1 + 1\<rparr>) = [7]
         \<and> sln_vector (s1\<lparr>it := it s1 + 1\<rparr>) = [7])"
proof -
  have three: "init_solving plain None accelerated = (Returns 0, initialised)
     \<and> anderson_is_on accelerated
     \<and> sln_vector initialised = [0]
     \<and> capacity initialised = 3
     \<and> (\<exists>s1 t.
           (\<forall>c. (None :: addr option) = Some c \<longrightarrow> c < next_addr accelerated)
           \<and> do_initial_step_return_finished plain 0
                (parameter_setup (init_anderson plain initialised)) = (Returns False, s1)
           \<and> loop_state plain 0 0 (s1\<lparr>it := it s1 + 1\<rparr>) = Some (s1\<lparr>it := it s1 + 1\<rparr>)
           \<and> loop_state plain 0 1 (s1\<lparr>it := it s1 + 1\<rparr>) = Some t
           \<and> \<not> history_full (s1\<lparr>it := it s1 + 1\<rparr>)
           \<and> solve_result (s1\<lparr>it := it s1 + 1\<rparr>) = [5]
           \<and> sln_vector (s1\<lparr>it := it s1 + 1\<rparr>) = [5]
           \<and> solve plain None accelerated = solve_loop plain 0 t
           \<and> linear_solves t = 2
           \<and> history_full t
           \<and> history t = [[0], [5], [15 / 2]]
           \<and> block t (anderson_coeffs t) = [- 1, 2]
           \<and> spec_coeffs plain [[0], [5], [15 / 2]] 3 1 = Some [- 1, 2]
           \<and> sln_vector t ! 0 = spec_mixed [[0], [5], [15 / 2]] [- 1, 2] 1 3 0
           \<and> sln_vector t = [10])"
  proof -
    define d where "d = do_initial_step_return_finished plain 0
                          (parameter_setup (init_anderson plain initialised))"
    define u0 where "u0 = (snd d)\<lparr>it := it (snd d) + 1\<rparr>"
    define b where "b = solve_loop_body plain 0 u0"
    define t where "t = projr b"
    note eval = initialised_def accelerated_def scenario_simps solve_simps entry_simps pass_simps
    have rep: "replicate 2 (0 :: real) = [0, 0]"
      by (simp add: numeral_2_eq_2)
    have i: "init_solving plain None accelerated = (Returns 0, initialised)"
      by (simp add: initialised_def accelerated_def scenario_simps init_simps)
    have on: "anderson_is_on accelerated"
      by (simp add: accelerated_def scenario_simps)
    have cv: "\<forall>c. (None :: addr option) = Some c \<longrightarrow> c < next_addr accelerated"
      by simp
    have s: "sln_vector initialised = [0]" and c: "capacity initialised = 3"
      and dm: "dimension initialised = 1" and be: "anderson_beta initialised = 1"
      and l: "linear_solves accelerated = 0"
      by (simp_all add: initialised_def accelerated_def scenario_simps init_simps capacity_def
          linear_solves_def)
    have "fst d = Returns False"
      unfolding d_def by (simp add: eval)
    then have first: "do_initial_step_return_finished plain 0
                        (parameter_setup (init_anderson plain initialised)) = (Returns False, snd d)"
      unfolding d_def by (metis prod.collapse)
    have "\<not> isl b"
      unfolding b_def u0_def d_def by (simp add: eval)
    then have "b = Inr t"
      by (simp add: t_def)
    then have l1: "loop_state plain 0 1 u0 = Some t"
      by (simp add: b_def)
    have l0: "loop_state plain 0 0 u0 = Some u0"
      by simp
    have r0: "solve_result u0 = [5]"
      unfolding u0_def d_def by (simp add: eval solve_result_def)
    have ht: "history t = [[0], [5], [15 / 2]]"
      unfolding t_def b_def u0_def d_def by (simp add: eval)
    have ct: "block t (anderson_coeffs t) = [- 1, 2]"
      unfolding t_def b_def u0_def d_def by (simp add: eval rep)
    note h0 = history_prepopulated [OF i on cv first l0 [unfolded u0_def], folded u0_def,
        unfolded c s dm be l r0]
    note h1 = history_prepopulated [OF i on cv first l1 [unfolded u0_def], folded u0_def,
        unfolded c s dm be l ht ct]
    from h0 have a: "\<not> history_full u0 \<and> sln_vector u0 = [5]"
      by simp
    from h1 have b: "solve plain None accelerated = solve_loop plain 0 t
           \<and> linear_solves t = 2
           \<and> history_full t
           \<and> spec_coeffs plain [[0], [5], [15 / 2]] 3 1 = Some [- 1, 2]
           \<and> sln_vector t ! 0 = spec_mixed [[0], [5], [15 / 2]] [- 1, 2] 1 3 0"
      by simp
    have "spec_mixed [[0], [5], [15 / 2]] [- 1, 2] 1 3 0 = 10"
      by (simp add: spec_mixed_def atLeastAtMost_upt upt_conv_Cons)
    with b have "sln_vector t ! 0 = 10"
      by simp
    moreover have "length (sln_vector t) = 1"
      unfolding t_def b_def u0_def d_def by (simp add: eval rep)
    ultimately have st: "sln_vector t = [10]"
      by (cases "sln_vector t") simp_all
    from i on s c cv first l0 l1 a r0 b ht ct st show ?thesis
      unfolding u0_def by blast
  qed
  have i: "init_solving plain (Some 0) guess_four = (Returns 0, initialised_four)"
    by (simp add: initialised_four_def guess_four_def accelerated_def scenario_simps
        init_simps)
  have on: "anderson_is_on guess_four"
    by (simp add: guess_four_def accelerated_def scenario_simps)
  have two: "\<exists>s1. (\<forall>c. Some (0 :: addr) = Some c \<longrightarrow> c < next_addr guess_four)
           \<and> do_initial_step_return_finished plain 0
                (parameter_setup (init_anderson plain initialised_four)) = (Returns False, s1)
           \<and> loop_state plain 0 0 (s1\<lparr>it := it s1 + 1\<rparr>) = Some (s1\<lparr>it := it s1 + 1\<rparr>)
           \<and> capacity initialised_four = 2 \<and> anderson_beta initialised_four = 1
           \<and> history_full (s1\<lparr>it := it s1 + 1\<rparr>)
           \<and> solve_result (s1\<lparr>it := it s1 + 1\<rparr>) = [7]
           \<and> sln_vector (s1\<lparr>it := it s1 + 1\<rparr>) = [7]"
  proof -
    define d where "d = do_initial_step_return_finished plain 0
                          (parameter_setup (init_anderson plain initialised_four))"
    define u0 where "u0 = (snd d)\<lparr>it := it (snd d) + 1\<rparr>"
    note eval = initialised_four_def guess_four_def accelerated_def scenario_simps
      solve_simps entry_simps pass_simps
    have i: "init_solving plain (Some 0) guess_four = (Returns 0, initialised_four)"
      by (simp add: initialised_four_def guess_four_def accelerated_def scenario_simps
          init_simps)
    have on: "anderson_is_on guess_four"
      by (simp add: guess_four_def accelerated_def scenario_simps)
    have cv: "\<forall>c. Some (0 :: addr) = Some c \<longrightarrow> c < next_addr guess_four"
      by (simp add: guess_four_def)
    have c: "capacity initialised_four = 2" and be: "anderson_beta initialised_four = 1"
      by (simp_all add: initialised_four_def guess_four_def accelerated_def scenario_simps
          init_simps capacity_def)
    have "fst d = Returns False"
      unfolding d_def by (simp add: eval)
    then have first: "do_initial_step_return_finished plain 0
                        (parameter_setup (init_anderson plain initialised_four))
                      = (Returns False, snd d)"
      unfolding d_def by (metis prod.collapse)
    have l0: "loop_state plain 0 0 u0 = Some u0"
      by simp
    have r0: "solve_result u0 = [7]"
      unfolding u0_def d_def by (simp add: eval solve_result_def)
    note h = history_prepopulated [OF i on cv first l0 [unfolded u0_def], folded u0_def,
        unfolded c be r0]
    from h have "history_full u0 \<and> sln_vector u0 = [7]"
      by simp
    with cv first l0 c be r0 show ?thesis
      unfolding u0_def by blast
  qed
  from three i on two show ?thesis
    by (simp only: simp_thms)
qed

theorem first_mixed_vector_counterexample:
  "init_solving plain (Some 0) guess_four = (Returns 0, initialised_four)
   \<and> anderson_is_on guess_four
   \<and> capacity initialised_four = 2
   \<and> anderson_beta initialised_four = 1
   \<and> sln_vector initialised_four = [4]
   \<and> fst (do_initial_step_return_finished plain 0
             (parameter_setup (init_anderson plain initialised_four))) = Returns False
   \<and> history_full (snd (do_initial_step_return_finished plain 0
             (parameter_setup (init_anderson plain initialised_four))))
   \<and> history (snd (do_initial_step_return_finished plain 0
             (parameter_setup (init_anderson plain initialised_four)))) = [[4], [7]]
   \<and> solve_result (snd (do_initial_step_return_finished plain 0
             (parameter_setup (init_anderson plain initialised_four)))) = [7]
   \<and> sln_vector (snd (do_initial_step_return_finished plain 0
             (parameter_setup (init_anderson plain initialised_four)))) = [7]"
proof -
  note eval = initialised_four_def guess_four_def accelerated_def scenario_simps
    solve_simps entry_simps pass_simps
  have "init_solving plain (Some 0) guess_four = (Returns 0, initialised_four)"
    by (simp add: initialised_four_def guess_four_def accelerated_def scenario_simps
        init_simps)
  moreover have "anderson_is_on guess_four"
    by (simp add: guess_four_def accelerated_def scenario_simps)
  moreover have "capacity initialised_four = 2" "anderson_beta initialised_four = 1"
    "sln_vector initialised_four = [4]"
    by (simp_all add: initialised_four_def guess_four_def accelerated_def scenario_simps
        init_simps capacity_def block_def upt_conv_Cons)
  moreover have "fst (do_initial_step_return_finished plain 0
             (parameter_setup (init_anderson plain initialised_four))) = Returns False"
    by (simp add: eval)
  moreover have "history_full (snd (do_initial_step_return_finished plain 0
             (parameter_setup (init_anderson plain initialised_four))))"
    by (simp add: eval history_full_def)
  moreover have "history (snd (do_initial_step_return_finished plain 0
             (parameter_setup (init_anderson plain initialised_four)))) = [[4], [7]]"
    by (simp add: eval)
  moreover have "solve_result (snd (do_initial_step_return_finished plain 0
             (parameter_setup (init_anderson plain initialised_four)))) = [7]"
    by (simp add: eval solve_result_def)
  moreover have "sln_vector (snd (do_initial_step_return_finished plain 0
             (parameter_setup (init_anderson plain initialised_four)))) = [7]"
    by (simp add: eval)
  ultimately show ?thesis
    by (simp only: simp_thms)
qed

end
